theory Spec2Isabelle
  imports Main
begin

section \<open>Values and errors\<close>

text \<open>
  The exceptions that the modelled code can raise. \<open>InvalidNode\<close> is not a Python
  exception: it marks a handle that denotes no node of an arena, which no \<open>fx.Node\<close>
  object corresponds to.
\<close>

datatype error =
    RuntimeError
  | ValueError
  | AssertionError
  | TypeError
  | AttributeError
  | KeyError
  | IndexError
  | InvalidNode
  | ExecutorError

text \<open>The three graphs of an \<open>IterGraph\<close>: \<open>Main\<close> is the steady graph (\<open>self\<close>).\<close>

datatype graph_id = Setup | Cleanup | Main

text \<open>
  Run-time values handled by the dispatcher: a tuple of values, or any other object
  (a tensor, a number), kept opaque.
\<close>

datatype 'a pyval = VTuple "'a pyval list" | VOther 'a

section \<open>The graph representation (torch.fx)\<close>

text \<open>
  \<open>IterGraph\<close> subclasses \<open>fx.Graph\<close> and edits \<open>fx.Node\<close> objects; the module
  \<open>torch.fx\<close> itself is not among the sources. The definitions of this section give its
  data and its primitives, after section 3 of the specification (a node has a role tag,
  a target, positional and keyword arguments and a set of users; a graph is an ordered
  sequence of nodes) and section 4.2 (an erase is refused while the node has users).

  A graph owns an arena of nodes. A node is named by its index in the arena of its own
  graph, and keeps that index after it is erased, as the Python object outlives its
  removal from the node list. A handle outside the arena denotes no node.
\<close>

datatype opcode = Placeholder | CallFunction | Output

text \<open>
  The target of a node: the callable of a \<open>call_function\<close> node, kept by name, or the
  string of a placeholder or of the output node. A callable never equals a string.
\<close>

datatype target = TFun string | TStr string

text \<open>
  An \<open>Argument\<close>: a node, \<open>None\<close>, a string, an integer, or a tuple of arguments.
\<close>

datatype argument =
    ArgNode nat
  | ArgNone
  | ArgStr string
  | ArgInt int
  | ArgTuple "argument list"

text \<open>A key of \<open>node.users\<close>: a node, or a marker such as \<open>"__hold__"\<close>.\<close>

datatype user = UserNode nat | UserMark string

text \<open>
  Modelled from the spec: the class \<open>fx.Node\<close>. \<open>n_users\<close> lists the keys of the
  dictionary \<open>users\<close> in insertion order, \<open>n_input_nodes\<close> the keys of \<open>_input_nodes\<close>,
  and \<open>n_erased\<close> is the flag \<open>_erased\<close>. Names and type annotations are left out.
\<close>

record node =
  n_op :: opcode
  n_target :: target
  n_args :: "argument list"
  n_kwargs :: "(string \<times> argument) list"
  n_users :: "user list"
  n_input_nodes :: "nat list"
  n_erased :: bool

text \<open>
  Modelled from the spec: the class \<open>fx.Graph\<close>. \<open>g_nodes\<close> is the arena, \<open>g_order\<close>
  the node list \<open>graph.nodes\<close>: the handles of the nodes that are not erased, in order.
\<close>

record graph =
  g_nodes :: "node list"
  g_order :: "nat list"

text \<open>
  Where a new node goes: before the root (at the end of the list, the default), or
  before or after a node, as inside \<open>with graph.inserting_before(n)\<close> and
  \<open>with graph.inserting_after(n)\<close>.
\<close>

datatype insert_point = AtEnd | InsertBefore nat | InsertAfter nat

text \<open>
  Modelled from the spec: \<open>torch.utils._pytree.tree_flatten\<close> on an argument, the list
  of its leaves from left to right; \<open>None\<close> is a leaf.
\<close>

fun tree_flatten :: "argument \<Rightarrow> argument list" where
  "tree_flatten (ArgTuple xs) = concat (map tree_flatten xs)"
| "tree_flatten a = [a]"

text \<open>
  \<open>tree_flatten((args, kwargs))\<close>: the leaves of the positional arguments, then those of
  the keyword arguments in the dictionary's order.
\<close>

definition flatten_args_kwargs :: "argument list \<Rightarrow> (string \<times> argument) list \<Rightarrow> argument list" where
  "flatten_args_kwargs args kwargs =
     concat (map tree_flatten args) @ concat (map (\<lambda>kv. tree_flatten (snd kv)) kwargs)"

text \<open>
  Modelled from the spec: \<open>tree_unflatten\<close>, which fills the shape of an argument with
  leaves taken from the front of a list and returns the leaves left over.
\<close>

fun tree_unflatten :: "argument \<Rightarrow> argument list \<Rightarrow> argument \<times> argument list"
  and tree_unflatten_list :: "argument list \<Rightarrow> argument list \<Rightarrow> argument list \<times> argument list" where
  "tree_unflatten (ArgTuple xs) leaves =
     (let r = tree_unflatten_list xs leaves in (ArgTuple (fst r), snd r))"
| "tree_unflatten (ArgNode n) leaves = (case leaves of [] \<Rightarrow> (ArgNode n, []) | l # ls \<Rightarrow> (l, ls))"
| "tree_unflatten ArgNone leaves = (case leaves of [] \<Rightarrow> (ArgNone, []) | l # ls \<Rightarrow> (l, ls))"
| "tree_unflatten (ArgStr s) leaves = (case leaves of [] \<Rightarrow> (ArgStr s, []) | l # ls \<Rightarrow> (l, ls))"
| "tree_unflatten (ArgInt i) leaves = (case leaves of [] \<Rightarrow> (ArgInt i, []) | l # ls \<Rightarrow> (l, ls))"
| "tree_unflatten_list [] leaves = ([], leaves)"
| "tree_unflatten_list (x # xs) leaves =
     (let r = tree_unflatten x leaves;
          rs = tree_unflatten_list xs (snd r)
      in (fst r # fst rs, snd rs))"

text \<open>
  \<open>tree_unflatten(leaves, spec)\<close> for the shape of \<open>(args, kwargs)\<close>: the new positional
  and keyword arguments.
\<close>

fun unflatten_kwargs ::
  "(string \<times> argument) list \<Rightarrow> argument list \<Rightarrow> (string \<times> argument) list \<times> argument list" where
  "unflatten_kwargs [] leaves = ([], leaves)"
| "unflatten_kwargs (kv # kvs) leaves =
     (let r = tree_unflatten (snd kv) leaves;
          rs = unflatten_kwargs kvs (snd r)
      in ((fst kv, fst r) # fst rs, snd rs))"

definition unflatten_args_kwargs ::
  "argument list \<Rightarrow> (string \<times> argument) list \<Rightarrow> argument list \<Rightarrow>
     argument list \<times> (string \<times> argument) list" where
  "unflatten_args_kwargs args kwargs leaves =
     (let r = tree_unflatten_list args leaves;
          rs = unflatten_kwargs kwargs (snd r)
      in (fst r, fst rs))"

text \<open>
  Modelled from the spec: \<open>tree_map\<close> and \<open>fx.node.map_arg\<close> with a function on the
  nodes of an argument; a node sent to \<open>None\<close> becomes the argument \<open>None\<close>.
\<close>

fun map_arg :: "(nat \<Rightarrow> nat option) \<Rightarrow> argument \<Rightarrow> argument" where
  "map_arg f (ArgNode n) = (case f n of None \<Rightarrow> ArgNone | Some n' \<Rightarrow> ArgNode n')"
| "map_arg f (ArgTuple xs) = ArgTuple (map (map_arg f) xs)"
| "map_arg f a = a"

definition map_kwargs :: "(nat \<Rightarrow> nat option) \<Rightarrow> (string \<times> argument) list \<Rightarrow> (string \<times> argument) list" where
  "map_kwargs f kwargs = map (\<lambda>kv. (fst kv, map_arg f (snd kv))) kwargs"

text \<open>The nodes among a list of leaves, in order.\<close>

fun leaf_nodes :: "argument list \<Rightarrow> nat list" where
  "leaf_nodes [] = []"
| "leaf_nodes (ArgNode n # ls) = n # leaf_nodes ls"
| "leaf_nodes (l # ls) = leaf_nodes ls"

text \<open>
  Modelled from the spec: the keys that \<open>Node.__update_args_kwargs\<close> puts into
  \<open>_input_nodes\<close>, the nodes of the arguments, each once, in the order of their first
  occurrence.
\<close>

definition input_nodes_of :: "argument list \<Rightarrow> (string \<times> argument) list \<Rightarrow> nat list" where
  "input_nodes_of args kwargs = rev (remdups (rev (leaf_nodes (flatten_args_kwargs args kwargs))))"

text \<open>Modelled from the spec: \<open>node.users.setdefault(u)\<close> on the node with handle \<open>i\<close>.\<close>

definition add_user :: "user \<Rightarrow> nat \<Rightarrow> node list \<Rightarrow> node list" where
  "add_user u i ns =
     (if i < length ns then
        ns[i := (ns ! i)\<lparr>n_users :=
                 (if u \<in> set (n_users (ns ! i)) then n_users (ns ! i)
                  else n_users (ns ! i) @ [u])\<rparr>]
      else ns)"

text \<open>
  Modelled from the spec: the loop \<open>for old_use in self._input_nodes.keys():
  old_use.users.pop(self)\<close>; \<open>pop\<close> raises \<open>KeyError\<close> on a missing key and the loop
  stops there.
\<close>

fun pop_user :: "user \<Rightarrow> nat list \<Rightarrow> node list \<Rightarrow> (error + unit) \<times> node list" where
  "pop_user u [] ns = (Inr (), ns)"
| "pop_user u (i # js) ns =
     (if i < length ns then
        (if u \<in> set (n_users (ns ! i)) then
           pop_user u js (ns[i := (ns ! i)\<lparr>n_users := removeAll u (n_users (ns ! i))\<rparr>])
         else (Inl KeyError, ns))
      else pop_user u js ns)"

text \<open>
  Modelled from the spec: \<open>Node.__update_args_kwargs\<close>, behind the setters of
  \<open>node.args\<close> and \<open>node.kwargs\<close>: store the arguments, drop the node from the users of
  its old input nodes, recompute the input nodes, add the node to their users.
\<close>

definition update_args_kwargs ::
  "nat \<Rightarrow> argument list \<Rightarrow> (string \<times> argument) list \<Rightarrow> node list \<Rightarrow> (error + unit) \<times> node list" where
  "update_args_kwargs n new_args new_kwargs ns =
     (let ns1 = ns[n := (ns ! n)\<lparr>n_args := new_args, n_kwargs := new_kwargs\<rparr>]
      in case pop_user (UserNode n) (n_input_nodes (ns ! n)) ns1 of
           (Inl e, ns2) \<Rightarrow> (Inl e, ns2)
         | (Inr u, ns2) \<Rightarrow>
             (let new = input_nodes_of new_args new_kwargs;
                  ns3 = ns2[n := (ns2 ! n)\<lparr>n_input_nodes := new\<rparr>]
              in (Inr (), fold (add_user (UserNode n)) new ns3)))"

text \<open>
  Modelled from the spec: where \<open>Node.prepend\<close> and \<open>Node.append\<close> put a node in the
  node list. The list is kept as a sequence; a target that is not in the sequence stands
  for the root, so the node goes to the end.
\<close>

fun insert_before :: "nat \<Rightarrow> nat \<Rightarrow> nat list \<Rightarrow> nat list" where
  "insert_before t x [] = [x]"
| "insert_before t x (y # ys) = (if y = t then x # y # ys else y # insert_before t x ys)"

fun insert_after :: "nat \<Rightarrow> nat \<Rightarrow> nat list \<Rightarrow> nat list" where
  "insert_after t x [] = [x]"
| "insert_after t x (y # ys) = (if y = t then y # x # ys else y # insert_after t x ys)"

definition insert_at :: "insert_point \<Rightarrow> nat \<Rightarrow> nat list \<Rightarrow> nat list" where
  "insert_at pt x order =
     (case pt of
        AtEnd \<Rightarrow> order @ [x]
      | InsertBefore t \<Rightarrow> insert_before t x order
      | InsertAfter t \<Rightarrow> insert_after t x order)"

text \<open>
  Modelled from the spec: \<open>fx.Graph.create_node\<close> at an insertion point. The new node
  takes the next handle of the arena, has no users, and joins the users of its input
  nodes. It never fails.
\<close>

definition fx_create_node ::
  "insert_point \<Rightarrow> opcode \<Rightarrow> target \<Rightarrow> argument list \<Rightarrow> (string \<times> argument) list \<Rightarrow> graph \<Rightarrow>
     nat \<times> graph" where
  "fx_create_node pt op tgt args kwargs g =
     (let new_id = length (g_nodes g);
          inputs = input_nodes_of args kwargs;
          n = \<lparr>n_op = op, n_target = tgt, n_args = args, n_kwargs = kwargs, n_users = [],
               n_input_nodes = inputs, n_erased = False\<rparr>
      in (new_id,
          g\<lparr>g_nodes := fold (add_user (UserNode new_id)) inputs (g_nodes g) @ [n],
            g_order := insert_at pt new_id (g_order g)\<rparr>))"

text \<open>Modelled from the spec: \<open>fx.Graph.call_function\<close>, \<open>placeholder\<close> and \<open>output\<close>.\<close>

definition fx_call_function ::
  "insert_point \<Rightarrow> target \<Rightarrow> argument list \<Rightarrow> (string \<times> argument) list \<Rightarrow> graph \<Rightarrow> nat \<times> graph" where
  "fx_call_function pt the_function args kwargs g =
     fx_create_node pt CallFunction the_function args kwargs g"

definition fx_placeholder :: "insert_point \<Rightarrow> string \<Rightarrow> graph \<Rightarrow> nat \<times> graph" where
  "fx_placeholder pt name g = fx_create_node pt Placeholder (TStr name) [] [] g"

definition fx_output :: "insert_point \<Rightarrow> argument \<Rightarrow> graph \<Rightarrow> nat \<times> graph" where
  "fx_output pt result g = fx_create_node pt Output (TStr ''output'') [result] [] g"

text \<open>
  Modelled from the spec: \<open>fx.Graph.placeholder\<close> called with a value that need not be
  a string, as the frozen \<open>IterGraph.output\<close> does: \<open>create_node\<close> derives the node's
  name from the target and asserts that a target that is not callable is a string.
\<close>

definition fx_placeholder_value :: "insert_point \<Rightarrow> argument \<Rightarrow> graph \<Rightarrow> (error + nat) \<times> graph" where
  "fx_placeholder_value pt name g =
     (case name of
        ArgStr s \<Rightarrow> (let r = fx_placeholder pt s g in (Inr (fst r), snd r))
      | _ \<Rightarrow> (Inl AssertionError, g))"

text \<open>
  Modelled from the spec: \<open>fx.Graph.erase_node\<close>. It refuses a node that has users,
  does nothing to a node already erased, and otherwise takes the node out of the list,
  marks it erased and replaces the nodes among its arguments, then among its keyword
  arguments, by \<open>None\<close>, which drops it from the users of its input nodes.
\<close>

definition fx_erase_node :: "nat \<Rightarrow> graph \<Rightarrow> (error + unit) \<times> graph" where
  "fx_erase_node to_erase g =
     (if \<not> to_erase < length (g_nodes g) then (Inl InvalidNode, g)
      else if n_users (g_nodes g ! to_erase) \<noteq> [] then (Inl RuntimeError, g)
      else if n_erased (g_nodes g ! to_erase) then (Inr (), g)
      else
        (let nd = g_nodes g ! to_erase;
             ns1 = (g_nodes g)[to_erase := nd\<lparr>n_erased := True\<rparr>];
             order1 = removeAll to_erase (g_order g)
         in case update_args_kwargs to_erase (map (map_arg (\<lambda>n. None)) (n_args nd))
                   (n_kwargs nd) ns1 of
              (Inl e, ns2) \<Rightarrow> (Inl e, g\<lparr>g_nodes := ns2, g_order := order1\<rparr>)
            | (Inr u, ns2) \<Rightarrow>
                (let r = update_args_kwargs to_erase (n_args (ns2 ! to_erase))
                           (map_kwargs (\<lambda>n. None) (n_kwargs (ns2 ! to_erase))) ns2
                 in (fst r, g\<lparr>g_nodes := snd r, g_order := order1\<rparr>))))"

text \<open>
  Modelled from the spec: \<open>target.prepend(x)\<close> and \<open>target.append(x)\<close> of \<open>fx.Node\<close>,
  which move \<open>x\<close> to just before or just after \<open>target\<close>; prepending a node to itself
  has no effect, and appending goes through \<open>target._next.prepend(x)\<close>.
\<close>

definition fx_prepend :: "nat \<Rightarrow> nat \<Rightarrow> graph \<Rightarrow> graph" where
  "fx_prepend tgt x g =
     (if tgt = x then g else g\<lparr>g_order := insert_before tgt x (removeAll x (g_order g))\<rparr>)"

definition fx_append :: "nat \<Rightarrow> nat \<Rightarrow> graph \<Rightarrow> graph" where
  "fx_append tgt x g =
     (if tgt = x then g else g\<lparr>g_order := insert_after tgt x (removeAll x (g_order g))\<rparr>)"

text \<open>
  Modelled from the spec: \<open>Node.update_arg(idx, arg)\<close>, that is \<open>args = list(self.args);
  args[idx] = arg; self.args = tuple(args)\<close>, with Python's indexing: a negative index
  counts from the end and an index out of range raises \<open>IndexError\<close>.
\<close>

definition fx_update_arg :: "nat \<Rightarrow> int \<Rightarrow> argument \<Rightarrow> graph \<Rightarrow> (error + unit) \<times> graph" where
  "fx_update_arg n idx arg g =
     (let args = n_args (g_nodes g ! n);
          len = int (length args);
          j = (if idx < 0 then len + idx else idx)
      in if 0 \<le> j \<and> j < len then
           (let r = update_args_kwargs n (args[nat j := arg]) (n_kwargs (g_nodes g ! n)) (g_nodes g)
            in (fst r, g\<lparr>g_nodes := snd r\<rparr>))
         else (Inl IndexError, g))"

section \<open>IterGraph: the three synchronised graphs\<close>

text \<open>
  The state of an \<open>IterGraph\<close>. \<open>main_graph\<close> is the \<open>fx.Graph\<close> part of \<open>self\<close> (what
  \<open>super()\<close> reaches), the steady graph. \<open>freeze_flag\<close> is the attribute
  \<open>_freeze_cross_iter_movement\<close>. \<open>edit_log\<close> is not an attribute of the class: it records,
  in call order, on which of the three graphs the public editing primitives below have
  called a method of \<open>fx.Graph\<close> or \<open>fx.Node\<close>.

  The primitives of \<open>IterGraph\<close> take nodes of the steady graph. Each of them returns what
  the method returns or raises together with the state as the call leaves it, so a raise
  half way keeps what was already done.
\<close>

record iter_graph =
  main_graph :: graph
  setup_graph :: graph
  cleanup_graph :: graph
  setup_mapping :: "nat \<rightharpoonup> nat"
  cleanup_mapping :: "nat \<rightharpoonup> nat"
  freeze_flag :: bool
  cross_iter_block_count :: nat
  num_extra_output :: nat
  edit_log :: "graph_id list"

text \<open>
  \<open>IterGraph.__init__\<close>. The constructor copies \<open>orig_graph\<close> into \<open>self\<close> with
  \<open>graph_copy\<close>; the copy is taken as given here, \<open>orig_graph\<close> standing for it. The two
  mappings come from one \<open>zip\<close> of the three node lists, which stops at the shortest.
\<close>

definition IterGraph_init :: "graph \<Rightarrow> graph \<Rightarrow> graph \<Rightarrow> iter_graph" where
  "IterGraph_init orig_graph setup_g cleanup_g =
     (let triples = zip (g_order orig_graph) (zip (g_order setup_g) (g_order cleanup_g))
      in \<lparr>main_graph = orig_graph,
          setup_graph = setup_g,
          cleanup_graph = cleanup_g,
          setup_mapping = fold (\<lambda>t m. m(fst t \<mapsto> fst (snd t))) triples Map.empty,
          cleanup_mapping = fold (\<lambda>t m. m(fst t \<mapsto> snd (snd t))) triples Map.empty,
          freeze_flag = False,
          cross_iter_block_count = 0,
          num_extra_output = 0,
          edit_log = []\<rparr>)"

text \<open>\<open>IterGraph._lookup_node\<close>.\<close>

definition lookup_node :: "iter_graph \<Rightarrow> nat \<Rightarrow> graph_id \<Rightarrow> nat option" where
  "lookup_node st node graph =
     (case graph of
        Setup \<Rightarrow> setup_mapping st node
      | Cleanup \<Rightarrow> cleanup_mapping st node
      | Main \<Rightarrow> Some node)"

text \<open>The tuple \<open>_all_graphs\<close>, and reading and writing one of its graphs.\<close>

definition all_graphs :: "graph_id list" where
  "all_graphs = [Setup, Cleanup, Main]"

definition graph_of :: "iter_graph \<Rightarrow> graph_id \<Rightarrow> graph" where
  "graph_of st graph =
     (case graph of Setup \<Rightarrow> setup_graph st | Cleanup \<Rightarrow> cleanup_graph st | Main \<Rightarrow> main_graph st)"

definition set_graph :: "graph_id \<Rightarrow> graph \<Rightarrow> iter_graph \<Rightarrow> iter_graph" where
  "set_graph graph g st =
     (case graph of
        Setup \<Rightarrow> st\<lparr>setup_graph := g\<rparr>
      | Cleanup \<Rightarrow> st\<lparr>cleanup_graph := g\<rparr>
      | Main \<Rightarrow> st\<lparr>main_graph := g\<rparr>)"

definition logged :: "graph_id \<Rightarrow> iter_graph \<Rightarrow> iter_graph" where
  "logged graph st = st\<lparr>edit_log := edit_log st @ [graph]\<rparr>"

text \<open>\<open>IterGraph._find_output\<close>: the last node whose target is the string \<open>"output"\<close>.\<close>

definition find_output :: "graph \<Rightarrow> nat option" where
  "find_output g = find (\<lambda>n. n_target (g_nodes g ! n) = TStr ''output'') (rev (g_order g))"

text \<open>
  \<open>IterGraph._is_connect_to_output\<close>; the arena gives the users of the nodes. A user
  that is not a node is skipped.
\<close>

definition is_connect_to_output :: "node list \<Rightarrow> nat list \<Rightarrow> nat option \<Rightarrow> bool" where
  "is_connect_to_output ns subgraph output =
     list_all (\<lambda>node.
       list_all (\<lambda>u.
         (case u of
            UserMark s \<Rightarrow> True
          | UserNode user \<Rightarrow> \<not> (user \<notin> set subgraph \<and> Some user \<noteq> output)))
         (n_users (ns ! node)))
       subgraph"

text \<open>
  The assignment \<open>node.args, node.kwargs = ...\<close>: the setter of \<open>args\<close>, then the setter
  of \<open>kwargs\<close>.
\<close>

definition assign_args_kwargs ::
  "nat \<Rightarrow> argument list \<Rightarrow> (string \<times> argument) list \<Rightarrow> node list \<Rightarrow> (error + unit) \<times> node list" where
  "assign_args_kwargs n new_args new_kwargs ns =
     (case update_args_kwargs n new_args (n_kwargs (ns ! n)) ns of
        (Inl e, ns1) \<Rightarrow> (Inl e, ns1)
      | (Inr u, ns1) \<Rightarrow> update_args_kwargs n (n_args (ns1 ! n)) new_kwargs ns1)"

text \<open>
  \<open>IterGraph._clone_subgraph\<close>. The block comes from \<open>_lookup_node\<close> and may hold \<open>None\<close>.
  \<open>leaf_in_block\<close> is the test \<open>original_input_node in all_nodes\<close> on a leaf of any kind,
  and \<open>map_cloned_input\<close> the inner loop over the zipped leaves.
\<close>

definition leaf_in_block :: "nat option list \<Rightarrow> argument \<Rightarrow> bool" where
  "leaf_in_block subgraph leaf =
     (case leaf of
        ArgNode n \<Rightarrow> Some n \<in> set subgraph
      | ArgNone \<Rightarrow> None \<in> set subgraph
      | _ \<Rightarrow> False)"

fun map_cloned_input ::
  "nat option list \<Rightarrow> (nat \<rightharpoonup> nat) \<Rightarrow> (argument \<times> argument) list \<Rightarrow> error + argument list" where
  "map_cloned_input subgraph mapping [] = Inr []"
| "map_cloned_input subgraph mapping ((original_input_node, cloned_input_node) # rest) =
     (if leaf_in_block subgraph original_input_node then
        (case original_input_node of
           ArgNode n \<Rightarrow>
             (case mapping n of
                None \<Rightarrow> Inl AssertionError
              | Some c \<Rightarrow>
                  (case map_cloned_input subgraph mapping rest of
                     Inl e \<Rightarrow> Inl e
                   | Inr ms \<Rightarrow> Inr (ArgNode c # ms)))
         | _ \<Rightarrow> Inl AssertionError)
      else
        (case map_cloned_input subgraph mapping rest of
           Inl e \<Rightarrow> Inl e
         | Inr ms \<Rightarrow> Inr (cloned_input_node # ms)))"

fun clone_loop ::
  "nat option list \<Rightarrow> nat option list \<Rightarrow> (nat \<rightharpoonup> nat) \<Rightarrow> nat list \<Rightarrow> nat \<Rightarrow> graph \<Rightarrow>
     (error + nat list) \<times> graph" where
  "clone_loop subgraph [] mapping cloned_subgraph tgt g = (Inr cloned_subgraph, g)"
| "clone_loop subgraph (None # rest) mapping cloned_subgraph tgt g = (Inl AttributeError, g)"
| "clone_loop subgraph (Some node # rest) mapping cloned_subgraph tgt g =
     (let nd = g_nodes g ! node;
          r = fx_call_function (InsertBefore tgt) (n_target nd) (n_args nd) (n_kwargs nd) g;
          cloned_node = fst r;
          g1 = snd r;
          original_input = flatten_args_kwargs (n_args (g_nodes g1 ! node)) (n_kwargs (g_nodes g1 ! node));
          cloned_input = flatten_args_kwargs (n_args (g_nodes g1 ! cloned_node))
                           (n_kwargs (g_nodes g1 ! cloned_node))
      in case map_cloned_input subgraph mapping (zip original_input cloned_input) of
           Inl e \<Rightarrow> (Inl e, g1)
         | Inr mapped_cloned_input \<Rightarrow>
             (let new = unflatten_args_kwargs (n_args (g_nodes g1 ! cloned_node))
                          (n_kwargs (g_nodes g1 ! cloned_node)) mapped_cloned_input;
                  a = assign_args_kwargs cloned_node (fst new) (snd new) (g_nodes g1);
                  g2 = g1\<lparr>g_nodes := snd a\<rparr>
              in case fst a of
                   Inl e \<Rightarrow> (Inl e, g2)
                 | Inr u \<Rightarrow>
                     clone_loop subgraph rest (mapping(node \<mapsto> cloned_node))
                       (cloned_subgraph @ [cloned_node]) tgt g2))"

definition clone_subgraph :: "nat option list \<Rightarrow> graph \<Rightarrow> nat \<Rightarrow> (error + nat list) \<times> graph" where
  "clone_subgraph subgraph g tgt = clone_loop subgraph subgraph Map.empty [] tgt g"

text \<open>
  The first loop of \<open>_forward_subgraph_inputs\<close>: every node among the flattened
  arguments of the block's nodes that is not itself in the block, one entry per
  occurrence, in the order of the traversal.
\<close>

definition subgraph_inputs :: "node list \<Rightarrow> nat list \<Rightarrow> nat list" where
  "subgraph_inputs ns subgraph =
     concat (map (\<lambda>node.
       filter (\<lambda>i. i \<notin> set subgraph)
         (leaf_nodes (flatten_args_kwargs (n_args (ns ! node)) (n_kwargs (ns ! node)))))
       subgraph)"

text \<open>The test \<open>key in new_output\<close> on a key of \<open>node.users\<close> and the tuple \<open>new_output\<close>.\<close>

definition user_in_tuple :: "user \<Rightarrow> argument list \<Rightarrow> bool" where
  "user_in_tuple key new_output =
     (case key of
        UserNode n \<Rightarrow> ArgNode n \<in> set new_output
      | UserMark s \<Rightarrow> ArgStr s \<in> set new_output)"

text \<open>
  The loop \<open>for node in reversed(subgraph)\<close> of \<open>_forward_subgraph_inputs\<close>, over the
  reversed block, with the set \<open>erased\<close>.
\<close>

fun erase_subgraph ::
  "nat list \<Rightarrow> nat list \<Rightarrow> nat \<Rightarrow> argument list \<Rightarrow> graph \<Rightarrow> (error + unit) \<times> graph" where
  "erase_subgraph [] erased output new_output g = (Inr (), g)"
| "erase_subgraph (node # rest) erased output new_output g =
     (let users0 = n_users (g_nodes g ! node);
          users1 =
            (if length users0 = 1 then
               (let key = users0 ! 0
                in if \<not> user_in_tuple key new_output \<and> key = UserNode output then [] else users0)
             else users0);
          users2 = filter (\<lambda>u. \<not> (case u of UserNode m \<Rightarrow> m \<in> set erased | UserMark s \<Rightarrow> False)) users1;
          g1 = g\<lparr>g_nodes := (g_nodes g)[node := (g_nodes g ! node)\<lparr>n_users := users2\<rparr>]\<rparr>
      in if users2 \<noteq> [] then (Inl RuntimeError, g1)
         else
           (case fx_erase_node node g1 of
              (Inl e, g2) \<Rightarrow> (Inl e, g2)
            | (Inr u, g2) \<Rightarrow> erase_subgraph rest (node # erased) output new_output g2))"

text \<open>
  \<open>IterGraph._forward_subgraph_inputs\<close> on one graph; \<open>_fx_graph_call\<close> reaches the
  methods of \<open>fx.Graph\<close>, also when the graph is \<open>self\<close>. Without an output node,
  \<open>output.args\<close> raises.
\<close>

definition forward_subgraph_inputs :: "nat list \<Rightarrow> graph \<Rightarrow> bool \<Rightarrow> (error + nat) \<times> graph" where
  "forward_subgraph_inputs subgraph g erase_node_flag =
     (case find_output g of
        None \<Rightarrow> (Inl AttributeError, g)
      | Some output \<Rightarrow>
          (let inputs = subgraph_inputs (g_nodes g) subgraph;
               new_output = n_args (g_nodes g ! output) @ map ArgNode inputs;
               r1 = (if erase_node_flag then erase_subgraph (rev subgraph) [] output new_output g
                     else (Inr (), g))
           in case r1 of
                (Inl e, g1) \<Rightarrow> (Inl e, g1)
              | (Inr u, g1) \<Rightarrow>
                  (case fx_erase_node output g1 of
                     (Inl e, g2) \<Rightarrow> (Inl e, g2)
                   | (Inr u, g2) \<Rightarrow>
                       (Inr (length inputs), snd (fx_output AtEnd (ArgTuple new_output) g2)))))"

text \<open>Decimal digits of a number, for the names \<open>cross_iter_input_{count}_{i}\<close>.\<close>

definition digit_char :: "nat \<Rightarrow> char" where
  "digit_char d = ''0123456789'' ! d"

function string_of_nat :: "nat \<Rightarrow> string" where
  "string_of_nat n =
     (if n < 10 then [digit_char n] else string_of_nat (n div 10) @ [digit_char (n mod 10)])"
  by pat_completeness auto
termination
  by (relation "measure (\<lambda>n. n)") auto

definition cross_iter_input_name :: "nat \<Rightarrow> nat \<Rightarrow> string" where
  "cross_iter_input_name block_count i =
     ''cross_iter_input_'' @ string_of_nat block_count @ ''_'' @ string_of_nat i"

text \<open>
  The first loop of \<open>_forward_inputs_to_subgraph\<close>: the last node of the leading run of
  placeholders in the node list, \<open>None\<close> when the list does not start with a placeholder.
\<close>

definition find_last_placeholder :: "graph \<Rightarrow> nat option" where
  "find_last_placeholder g =
     (case takeWhile (\<lambda>n. n_op (g_nodes g ! n) = Placeholder) (g_order g) of
        [] \<Rightarrow> None
      | ps \<Rightarrow> Some (last ps))"

text \<open>
  The list comprehension that creates the new placeholders, each right after
  \<open>last_placeholder\<close>, for the indices in the order given.
\<close>

fun create_inputs :: "nat list \<Rightarrow> nat \<Rightarrow> nat \<Rightarrow> graph \<Rightarrow> nat list \<times> graph" where
  "create_inputs [] last_placeholder block_count g = ([], g)"
| "create_inputs (i # rest) last_placeholder block_count g =
     (let r = fx_placeholder (InsertAfter last_placeholder) (cross_iter_input_name block_count i) g;
          rs = create_inputs rest last_placeholder block_count (snd r)
      in (fst r # fst rs, snd rs))"

text \<open>
  The inner loop over the flattened inputs of one node: a leaf that is in the block or
  is not a node is kept, any other takes the next new placeholder. \<open>None\<close> stands for
  \<open>StopIteration\<close>.
\<close>

fun replace_inputs ::
  "nat list \<Rightarrow> argument list \<Rightarrow> nat list \<Rightarrow> (argument list \<times> nat list) option" where
  "replace_inputs subgraph [] new_input_nodes = Some ([], new_input_nodes)"
| "replace_inputs subgraph (ArgNode n # rest) new_input_nodes =
     (if n \<in> set subgraph then
        (case replace_inputs subgraph rest new_input_nodes of
           None \<Rightarrow> None
         | Some r \<Rightarrow> Some (ArgNode n # fst r, snd r))
      else
        (case new_input_nodes of
           [] \<Rightarrow> None
         | x # xs \<Rightarrow>
             (case replace_inputs subgraph rest xs of
                None \<Rightarrow> None
              | Some r \<Rightarrow> Some (ArgNode x # fst r, snd r))))"
| "replace_inputs subgraph (leaf # rest) new_input_nodes =
     (case replace_inputs subgraph rest new_input_nodes of
        None \<Rightarrow> None
      | Some r \<Rightarrow> Some (leaf # fst r, snd r))"

text \<open>The loop \<open>for node in subgraph\<close> that rewrites the arguments; it returns the iterator.\<close>

fun rewrite_subgraph ::
  "nat list \<Rightarrow> nat list \<Rightarrow> nat list \<Rightarrow> graph \<Rightarrow> (error + nat list) \<times> graph" where
  "rewrite_subgraph subgraph [] new_input_nodes g = (Inr new_input_nodes, g)"
| "rewrite_subgraph subgraph (node # rest) new_input_nodes g =
     (let nd = g_nodes g ! node
      in case replace_inputs subgraph (flatten_args_kwargs (n_args nd) (n_kwargs nd)) new_input_nodes of
           None \<Rightarrow> (Inl RuntimeError, g)
         | Some r \<Rightarrow>
             (let new = unflatten_args_kwargs (n_args nd) (n_kwargs nd) (fst r);
                  a = assign_args_kwargs node (fst new) (snd new) (g_nodes g);
                  g1 = g\<lparr>g_nodes := snd a\<rparr>
              in case fst a of
                   Inl e \<Rightarrow> (Inl e, g1)
                 | Inr u \<Rightarrow> rewrite_subgraph subgraph rest (snd r) g1))"

text \<open>
  \<open>IterGraph._forward_inputs_to_subgraph\<close> on one graph, with the value of
  \<open>_cross_iter_block_count\<close>. The placeholders are created for \<open>i\<close> from
  \<open>extra_input - 1\<close> down to 0 and the list is then reversed.
\<close>

definition forward_inputs_to_subgraph ::
  "nat list \<Rightarrow> graph \<Rightarrow> nat \<Rightarrow> nat \<Rightarrow> (error + unit) \<times> graph" where
  "forward_inputs_to_subgraph subgraph g extra_input block_count =
     (case find_last_placeholder g of
        None \<Rightarrow> (Inl AssertionError, g)
      | Some last_placeholder \<Rightarrow>
          (let r = create_inputs (rev [0..<extra_input]) last_placeholder block_count g;
               new_input_nodes = rev (fst r)
           in case rewrite_subgraph subgraph subgraph new_input_nodes (snd r) of
                (Inl e, g2) \<Rightarrow> (Inl e, g2)
              | (Inr unused, g2) \<Rightarrow>
                  (if unused \<noteq> [] then (Inl RuntimeError, g2) else (Inr (), g2))))"

text \<open>
  The two closing loops of \<open>move_to_next_iter_before\<close>: every node of the node list
  without users gets the user \<open>"__hold__"\<close>.
\<close>

definition hold_unused :: "graph \<Rightarrow> graph" where
  "hold_unused g =
     g\<lparr>g_nodes :=
         fold (\<lambda>n ns. if n_users (ns ! n) = [] then ns[n := (ns ! n)\<lparr>n_users := [UserMark ''__hold__'']\<rparr>]
                       else ns)
           (g_order g) (g_nodes g)\<rparr>"

text \<open>
  \<open>IterGraph.move_to_next_iter_before\<close>, in the three parts of its body. The part for
  the setup graph returns the count \<open>setup_extra_input\<close>; a \<open>None\<close> in the looked-up
  block makes the first loop of \<open>_forward_subgraph_inputs\<close> raise on \<open>node.args\<close>, before
  any change.
\<close>

definition move_setup_part :: "nat list \<Rightarrow> iter_graph \<Rightarrow> (error + nat) \<times> iter_graph" where
  "move_setup_part subgraph st =
     (case those (map (\<lambda>node. lookup_node st node Setup) subgraph) of
        None \<Rightarrow> (Inl AttributeError, st)
      | Some setup_subgraph \<Rightarrow>
          (let r = forward_subgraph_inputs setup_subgraph (setup_graph st) True
           in (fst r, st\<lparr>setup_graph := snd r\<rparr>)))"

definition move_cleanup_part :: "nat list \<Rightarrow> nat \<Rightarrow> nat \<Rightarrow> iter_graph \<Rightarrow> (error + unit) \<times> iter_graph" where
  "move_cleanup_part subgraph target_node setup_extra_input st =
     (case lookup_node st target_node Cleanup of
        None \<Rightarrow> (Inl AssertionError, st)
      | Some target_cleanup_node \<Rightarrow>
          (case clone_subgraph (map (\<lambda>node. lookup_node st node Cleanup) subgraph)
                  (cleanup_graph st) target_cleanup_node of
             (Inl e, g1) \<Rightarrow> (Inl e, st\<lparr>cleanup_graph := g1\<rparr>)
           | (Inr cloned_subgraph, g1) \<Rightarrow>
               (let r = forward_inputs_to_subgraph cloned_subgraph g1 setup_extra_input
                          (cross_iter_block_count st)
                in (fst r, st\<lparr>cleanup_graph := snd r\<rparr>))))"

definition move_main_part :: "nat list \<Rightarrow> nat \<Rightarrow> nat \<Rightarrow> iter_graph \<Rightarrow> (error + nat) \<times> iter_graph" where
  "move_main_part subgraph target_node setup_extra_input st =
     (case forward_subgraph_inputs subgraph (main_graph st) False of
        (Inl e, g1) \<Rightarrow> (Inl e, st\<lparr>main_graph := g1\<rparr>)
      | (Inr main_extra_input, g1) \<Rightarrow>
          (if main_extra_input \<noteq> setup_extra_input then (Inl AssertionError, st\<lparr>main_graph := g1\<rparr>)
           else
             (let g2 = fold (\<lambda>node g. fx_prepend target_node node g) subgraph g1
              in case forward_inputs_to_subgraph subgraph g2 main_extra_input
                        (cross_iter_block_count st) of
                   (Inl e, g3) \<Rightarrow> (Inl e, st\<lparr>main_graph := g3\<rparr>)
                 | (Inr u, g3) \<Rightarrow> (Inr main_extra_input, st\<lparr>main_graph := g3\<rparr>))))"

definition move_to_next_iter_before :: "nat list \<Rightarrow> nat \<Rightarrow> iter_graph \<Rightarrow> (error + unit) \<times> iter_graph" where
  "move_to_next_iter_before subgraph target_node st =
     (if freeze_flag st then (Inl RuntimeError, st)
      else if \<not> is_connect_to_output (g_nodes (main_graph st)) subgraph (find_output (main_graph st))
      then (Inl ValueError, st)
      else
        (let st1 = st\<lparr>cross_iter_block_count := cross_iter_block_count st + 1\<rparr>
         in case move_setup_part subgraph st1 of
              (Inl e, st2) \<Rightarrow> (Inl e, st2)
            | (Inr setup_extra_input, st2) \<Rightarrow>
                (case move_cleanup_part subgraph target_node setup_extra_input st2 of
                   (Inl e, st3) \<Rightarrow> (Inl e, st3)
                 | (Inr u, st3) \<Rightarrow>
                     (case move_main_part subgraph target_node setup_extra_input st3 of
                        (Inl e, st4) \<Rightarrow> (Inl e, st4)
                      | (Inr main_extra_input, st4) \<Rightarrow>
                          (Inr (),
                           st4\<lparr>cleanup_graph := hold_unused (cleanup_graph st4),
                               main_graph := hold_unused (main_graph st4),
                               num_extra_output := num_extra_output st4 + main_extra_input\<rparr>)))))"

text \<open>
  \<open>IterGraph.call_function\<close>. The arguments are translated for the two other graphs
  first; the nodes are then created in the setup graph, the steady graph and the cleanup
  graph, in this order.
\<close>

definition call_function ::
  "string \<Rightarrow> argument list \<Rightarrow> (string \<times> argument) list \<Rightarrow> iter_graph \<Rightarrow> nat \<times> iter_graph" where
  "call_function the_function args kwargs st =
     (if freeze_flag st then
        (let r = fx_call_function AtEnd (TFun the_function) args kwargs (main_graph st)
         in (fst r, logged Main (st\<lparr>main_graph := snd r\<rparr>)))
      else
        (let setup_args = map (map_arg (\<lambda>arg. lookup_node st arg Setup)) args;
             setup_kwargs = map_kwargs (\<lambda>arg. lookup_node st arg Setup) kwargs;
             cleanup_args = map (map_arg (\<lambda>arg. lookup_node st arg Cleanup)) args;
             cleanup_kwargs = map_kwargs (\<lambda>arg. lookup_node st arg Cleanup) kwargs;
             rs = fx_call_function AtEnd (TFun the_function) setup_args setup_kwargs (setup_graph st);
             st1 = logged Setup (st\<lparr>setup_graph := snd rs\<rparr>);
             rm = fx_call_function AtEnd (TFun the_function) args kwargs (main_graph st1);
             st2 = logged Main (st1\<lparr>main_graph := snd rm\<rparr>);
             rc = fx_call_function AtEnd (TFun the_function) cleanup_args cleanup_kwargs (cleanup_graph st2);
             st3 = logged Cleanup (st2\<lparr>cleanup_graph := snd rc\<rparr>)
         in (fst rm,
             st3\<lparr>setup_mapping := (setup_mapping st3)(fst rm \<mapsto> fst rs),
                 cleanup_mapping := (cleanup_mapping st3)(fst rm \<mapsto> fst rc)\<rparr>)))"

text \<open>
  \<open>IterGraph.erase_node\<close>: the setup graph, the steady graph, then the cleanup graph;
  the two mappings are not touched. A missing cleanup counterpart reaches
  \<open>fx.Graph.erase_node\<close> as \<open>None\<close>, whose \<open>users\<close> cannot be read.
\<close>

definition erase_node :: "nat \<Rightarrow> iter_graph \<Rightarrow> (error + unit) \<times> iter_graph" where
  "erase_node to_erase st =
     (if freeze_flag st then
        (let r = fx_erase_node to_erase (main_graph st)
         in (fst r, logged Main (st\<lparr>main_graph := snd r\<rparr>)))
      else
        (case lookup_node st to_erase Setup of
           None \<Rightarrow> (Inl AssertionError, st)
         | Some setup_node \<Rightarrow>
             (let rs = fx_erase_node setup_node (setup_graph st);
                  st1 = logged Setup (st\<lparr>setup_graph := snd rs\<rparr>)
              in case fst rs of
                   Inl e \<Rightarrow> (Inl e, st1)
                 | Inr u \<Rightarrow>
                     (let rm = fx_erase_node to_erase (main_graph st1);
                          st2 = logged Main (st1\<lparr>main_graph := snd rm\<rparr>)
                      in case fst rm of
                           Inl e \<Rightarrow> (Inl e, st2)
                         | Inr u \<Rightarrow>
                             (case lookup_node st2 to_erase Cleanup of
                                None \<Rightarrow> (Inl AttributeError, logged Cleanup st2)
                              | Some cleanup_node \<Rightarrow>
                                  (let rc = fx_erase_node cleanup_node (cleanup_graph st2)
                                   in (fst rc, logged Cleanup (st2\<lparr>cleanup_graph := snd rc\<rparr>))))))))"

text \<open>
  \<open>IterGraph.placeholder\<close>: the steady graph first, then the setup and the cleanup
  graph. Without the freeze the method has no \<open>return\<close> and gives \<open>None\<close>.
\<close>

definition placeholder :: "string \<Rightarrow> iter_graph \<Rightarrow> nat option \<times> iter_graph" where
  "placeholder name st =
     (if freeze_flag st then
        (let r = fx_placeholder AtEnd name (main_graph st)
         in (Some (fst r), logged Main (st\<lparr>main_graph := snd r\<rparr>)))
      else
        (let rm = fx_placeholder AtEnd name (main_graph st);
             st1 = logged Main (st\<lparr>main_graph := snd rm\<rparr>);
             rs = fx_placeholder AtEnd name (setup_graph st1);
             st2 = logged Setup (st1\<lparr>setup_graph := snd rs\<rparr>);
             rc = fx_placeholder AtEnd name (cleanup_graph st2);
             st3 = logged Cleanup (st2\<lparr>cleanup_graph := snd rc\<rparr>)
         in (None,
             st3\<lparr>setup_mapping := (setup_mapping st3)(fst rm \<mapsto> fst rs),
                 cleanup_mapping := (cleanup_mapping st3)(fst rm \<mapsto> fst rc)\<rparr>)))"

text \<open>
  \<open>IterGraph.output\<close>, here \<open>iter_output\<close>. With the freeze set the method calls \<open>super().placeholder\<close> on
  the result; otherwise it creates the output node of the steady graph, then those of
  the setup and the cleanup graph with the result translated.
\<close>

definition iter_output :: "argument \<Rightarrow> iter_graph \<Rightarrow> (error + nat) \<times> iter_graph" where
  "iter_output result st =
     (if freeze_flag st then
        (let r = fx_placeholder_value AtEnd result (main_graph st)
         in (fst r, logged Main (st\<lparr>main_graph := snd r\<rparr>)))
      else
        (let rm = fx_output AtEnd result (main_graph st);
             st1 = logged Main (st\<lparr>main_graph := snd rm\<rparr>);
             setup_result = map_arg (\<lambda>r. lookup_node st1 r Setup) result;
             cleanup_result = map_arg (\<lambda>r. lookup_node st1 r Cleanup) result;
             rs = fx_output AtEnd setup_result (setup_graph st1);
             st2 = logged Setup (st1\<lparr>setup_graph := snd rs\<rparr>);
             rc = fx_output AtEnd cleanup_result (cleanup_graph st2);
             st3 = logged Cleanup (st2\<lparr>cleanup_graph := snd rc\<rparr>)
         in (Inr (fst rm), st3)))"

text \<open>
  \<open>IterGraph.node_prepend\<close> and \<open>IterGraph.node_append\<close>: with the freeze set, on the
  steady graph alone; otherwise the loop over \<open>_all_graphs\<close> with its two assertions.
\<close>

fun node_prepend_loop :: "graph_id list \<Rightarrow> nat \<Rightarrow> nat \<Rightarrow> iter_graph \<Rightarrow> (error + unit) \<times> iter_graph" where
  "node_prepend_loop [] target_node node st = (Inr (), st)"
| "node_prepend_loop (graph # rest) target_node node st =
     (case lookup_node st node graph of
        None \<Rightarrow> (Inl AssertionError, st)
      | Some actual_node \<Rightarrow>
          (case lookup_node st target_node graph of
             None \<Rightarrow> (Inl AssertionError, st)
           | Some actual_target_node \<Rightarrow>
               node_prepend_loop rest target_node node
                 (logged graph (set_graph graph
                    (fx_prepend actual_target_node actual_node (graph_of st graph)) st))))"

definition node_prepend :: "nat \<Rightarrow> nat \<Rightarrow> iter_graph \<Rightarrow> (error + unit) \<times> iter_graph" where
  "node_prepend target_node node st =
     (if freeze_flag st then
        (Inr (), logged Main (st\<lparr>main_graph := fx_prepend target_node node (main_graph st)\<rparr>))
      else node_prepend_loop all_graphs target_node node st)"

fun node_append_loop :: "graph_id list \<Rightarrow> nat \<Rightarrow> nat \<Rightarrow> iter_graph \<Rightarrow> (error + unit) \<times> iter_graph" where
  "node_append_loop [] target_node node st = (Inr (), st)"
| "node_append_loop (graph # rest) target_node node st =
     (case lookup_node st node graph of
        None \<Rightarrow> (Inl AssertionError, st)
      | Some actual_node \<Rightarrow>
          (case lookup_node st target_node graph of
             None \<Rightarrow> (Inl AssertionError, st)
           | Some actual_target_node \<Rightarrow>
               node_append_loop rest target_node node
                 (logged graph (set_graph graph
                    (fx_append actual_target_node actual_node (graph_of st graph)) st))))"

definition node_append :: "nat \<Rightarrow> nat \<Rightarrow> iter_graph \<Rightarrow> (error + unit) \<times> iter_graph" where
  "node_append target_node node st =
     (if freeze_flag st then
        (Inr (), logged Main (st\<lparr>main_graph := fx_append target_node node (main_graph st)\<rparr>))
      else node_append_loop all_graphs target_node node st)"

text \<open>
  \<open>IterGraph.node_update_arg\<close>. With the freeze set the method calls
  \<open>node.update_arg(int, arg)\<close>, with the type \<open>int\<close> where the index \<open>idx\<close> belongs:
  \<open>args[int] = arg\<close> on a list raises \<open>TypeError\<close> and the arguments stay as they are.
  Otherwise the argument is updated in the setup graph, the steady graph and the cleanup
  graph, in this order.
\<close>

definition node_update_arg :: "nat \<Rightarrow> int \<Rightarrow> argument \<Rightarrow> iter_graph \<Rightarrow> (error + unit) \<times> iter_graph" where
  "node_update_arg node idx arg st =
     (if freeze_flag st then (Inl TypeError, st)
      else
        (case lookup_node st node Setup of
           None \<Rightarrow> (Inl AssertionError, st)
         | Some setup_node \<Rightarrow>
             (let setup_arg = map_arg (\<lambda>a. lookup_node st a Setup) arg;
                  rs = fx_update_arg setup_node idx setup_arg (setup_graph st);
                  st1 = logged Setup (st\<lparr>setup_graph := snd rs\<rparr>)
              in case fst rs of
                   Inl e \<Rightarrow> (Inl e, st1)
                 | Inr u \<Rightarrow>
                     (let rm = fx_update_arg node idx arg (main_graph st1);
                          st2 = logged Main (st1\<lparr>main_graph := snd rm\<rparr>)
                      in case fst rm of
                           Inl e \<Rightarrow> (Inl e, st2)
                         | Inr u \<Rightarrow>
                             (case lookup_node st2 node Cleanup of
                                None \<Rightarrow> (Inl AssertionError, st2)
                              | Some cleanup_node \<Rightarrow>
                                  (let cleanup_arg = map_arg (\<lambda>a. lookup_node st2 a Cleanup) arg;
                                       rc = fx_update_arg cleanup_node idx cleanup_arg (cleanup_graph st2)
                                   in (fst rc, logged Cleanup (st2\<lparr>cleanup_graph := snd rc\<rparr>))))))))"

text \<open>\<open>IterGraph.freeze_cross_iter_movement\<close>.\<close>

definition freeze_cross_iter_movement :: "iter_graph \<Rightarrow> iter_graph" where
  "freeze_cross_iter_movement st = st\<lparr>freeze_flag := True\<rparr>"

section \<open>Well-formed graphs and notions for the proofs\<close>

text \<open>
  Modelled from the spec: the invariant that section 3 gives a graph, as far as the
  primitives rely on it. The input nodes of every node are distinct nodes of the arena
  and each of them lists the node among its users; the node list holds distinct nodes of
  the arena. A graph just copied by \<open>graph_copy\<close> or \<open>deepcopy\<close> is well formed.
\<close>

definition well_formed :: "graph \<Rightarrow> bool" where
  "well_formed g \<longleftrightarrow>
     list_all (\<lambda>n.
        distinct (n_input_nodes (g_nodes g ! n)) \<and>
        list_all (\<lambda>i. i < length (g_nodes g) \<and> UserNode n \<in> set (n_users (g_nodes g ! i)))
          (n_input_nodes (g_nodes g ! n)))
       [0..<length (g_nodes g)]
     \<and> list_all (\<lambda>n. n < length (g_nodes g)) (g_order g)
     \<and> distinct (g_order g)"

text \<open>
  Two relations used in the proofs. \<open>keeps u nd nd'\<close>: the node \<open>nd'\<close> is \<open>nd\<close> with
  other users, and the two have the same users apart from \<open>u\<close>. \<open>frame u ns ns'\<close>: the
  arena \<open>ns'\<close> has the nodes of \<open>ns\<close>, each kept in this sense.
\<close>

definition keeps :: "user \<Rightarrow> node \<Rightarrow> node \<Rightarrow> bool" where
  "keeps u nd nd' \<longleftrightarrow>
     nd' = nd\<lparr>n_users := n_users nd'\<rparr> \<and>
     (\<forall>v. v \<noteq> u \<longrightarrow> (v \<in> set (n_users nd') \<longleftrightarrow> v \<in> set (n_users nd)))"

definition frame :: "user \<Rightarrow> node list \<Rightarrow> node list \<Rightarrow> bool" where
  "frame u ns ns' \<longleftrightarrow> length ns' = length ns \<and> (\<forall>j < length ns. keeps u (ns ! j) (ns' ! j))"

section \<open>Sequences of mirrored edits\<close>

text \<open>The nodes among the arguments of a call, one entry per occurrence.\<close>

definition argument_nodes :: "argument list \<Rightarrow> (string \<times> argument) list \<Rightarrow> nat list" where
  "argument_nodes args kwargs = leaf_nodes (flatten_args_kwargs args kwargs)"

text \<open>
  \<open>reachable g st\<close>: the engine \<open>st\<close> comes from the engine freshly constructed on three
  copies of the graph \<open>g\<close> by a sequence of calls of \<open>call_function\<close>, \<open>placeholder\<close> and
  \<open>erase_node\<close>. The node arguments of a created node are nodes of the steady graph;
  \<open>erase_node\<close> is called on any node and may raise, and the sequence goes on from the
  state that the call leaves.
\<close>

inductive reachable :: "graph \<Rightarrow> iter_graph \<Rightarrow> bool" for g :: graph where
  fresh: "reachable g (IterGraph_init g g g)"
| create:
    "reachable g st \<Longrightarrow>
     set (argument_nodes args kwargs) \<subseteq> set (g_order (main_graph st)) \<Longrightarrow>
     reachable g (snd (call_function the_function args kwargs st))"
| input: "reachable g st \<Longrightarrow> reachable g (snd (placeholder name st))"
| erase: "reachable g st \<Longrightarrow> reachable g (snd (erase_node to_erase st))"

text \<open>
  The invariant of these sequences, used in the proof: the three graphs are equal, arena
  and node list, the steady graph is well formed, the two mappings are equal and send a
  node to the node with the same handle, every node of the node list has an entry, and
  the engine is not frozen.
\<close>

definition in_step :: "iter_graph \<Rightarrow> bool" where
  "in_step st \<longleftrightarrow>
     setup_graph st = main_graph st \<and> cleanup_graph st = main_graph st
     \<and> well_formed (main_graph st)
     \<and> cleanup_mapping st = setup_mapping st
     \<and> (\<forall>n s. setup_mapping st n = Some s \<longrightarrow> s = n)
     \<and> set (g_order (main_graph st)) \<subseteq> dom (setup_mapping st)
     \<and> \<not> freeze_flag st"

section \<open>IterGraphModule: the iteration dispatcher\<close>

text \<open>
  The fields of \<open>IterGraphModule\<close> that \<open>setup\<close> (here \<open>module_setup\<close>), \<open>_run\<close> and \<open>forward\<close> read and write.
  \<open>m_num_extra_output\<close> is \<open>self.main_gm.graph.num_extra_output\<close>, which the dispatcher
  only reads.
\<close>

record 'a iter_graph_module =
  m_iter :: int
  m_max_iters :: int
  m_previous_output :: "'a pyval list"
  m_num_extra_output :: nat

text \<open>\<open>IterGraphModule.__init__\<close>, for the counters and the retained tuple.\<close>

definition module_init :: "nat \<Rightarrow> 'a iter_graph_module" where
  "module_init k =
     \<lparr>m_iter = 0, m_max_iters = 0, m_previous_output = [], m_num_extra_output = k\<rparr>"

text \<open>\<open>IterGraphModule.setup\<close>: the check comes before both assignments.\<close>

definition module_setup :: "int \<Rightarrow> 'a iter_graph_module \<Rightarrow> error + 'a iter_graph_module" where
  "module_setup max_iters m =
     (if max_iters \<le> 0 then Inl ValueError
      else Inr (m\<lparr>m_iter := 0, m_max_iters := max_iters\<rparr>))"

text \<open>
  The graph executor is a collaborator: \<open>exec g args kwargs\<close> is the call
  \<open>gm(*args, **kwargs)\<close> on the graph module of graph \<open>g\<close>, which returns a value or
  raises. \<open>has_len v\<close> says whether \<open>len\<close> applies to the opaque object \<open>v\<close>.
\<close>

type_synonym 'a executor =
  "graph_id \<Rightarrow> 'a pyval list \<Rightarrow> (string \<times> 'a pyval) list \<Rightarrow> error + 'a pyval"

fun py_has_len :: "('a \<Rightarrow> bool) \<Rightarrow> 'a pyval \<Rightarrow> bool" where
  "py_has_len has_len (VTuple xs) = True"
| "py_has_len has_len (VOther v) = has_len v"

text \<open>
  The last statement of \<open>_run\<close>: the f-string of \<open>logger.debug\<close> evaluates
  \<open>len(output)\<close> whatever the log level, and that raises on an object without a length.
\<close>

definition log_output :: "('a \<Rightarrow> bool) \<Rightarrow> 'a pyval \<Rightarrow> error + 'a pyval" where
  "log_output has_len output = (if py_has_len has_len output then Inr output else Inl TypeError)"

text \<open>
  \<open>IterGraphModule._run\<close>. The result pairs what the call returns or raises with the
  module as the call leaves it.
\<close>

definition run ::
  "'a executor \<Rightarrow> ('a \<Rightarrow> bool) \<Rightarrow> graph_id \<Rightarrow> 'a pyval list \<Rightarrow> (string \<times> 'a pyval) list \<Rightarrow>
     'a iter_graph_module \<Rightarrow> (error + 'a pyval) \<times> 'a iter_graph_module" where
  "run exec has_len gm args kwargs m =
     (if m_num_extra_output m > 0 then
        (if kwargs \<noteq> [] then (Inl AssertionError, m)
         else
           (case exec gm (args @ m_previous_output m) kwargs of
              Inl e \<Rightarrow> (Inl e, m)
            | Inr output \<Rightarrow>
                (if m_iter m < m_max_iters m then
                   (case output of
                      VOther v \<Rightarrow> (Inl AssertionError, m)
                    | VTuple out \<Rightarrow>
                        (let num_actual_output = int (length out) - int (m_num_extra_output m) in
                         if \<not> num_actual_output > 0 then (Inl AssertionError, m)
                         else
                           (let m' = m\<lparr>m_previous_output := drop (nat num_actual_output) out\<rparr>;
                                output' = take (nat num_actual_output) out
                            in (log_output has_len
                                  (if length output' = 1 then output' ! 0 else VTuple output'),
                                m'))))
                 else (log_output has_len output, m))))
      else
        (case exec gm args kwargs of
           Inl e \<Rightarrow> (Inl e, m)
         | Inr output \<Rightarrow> (log_output has_len output, m)))"

text \<open>The \<open>if\<close>/\<open>elif\<close>/\<open>else\<close> of \<open>forward\<close> that picks the graph module, in its order.\<close>

definition select_gm :: "'a iter_graph_module \<Rightarrow> graph_id" where
  "select_gm m =
     (if m_iter m = 1 then Setup
      else if m_iter m = m_max_iters m then Cleanup
      else Main)"

text \<open>
  \<open>IterGraphModule.forward\<close>: the counter is incremented first, then the graph is
  picked and run. The graph picked is returned with the result.
\<close>

definition forward ::
  "'a executor \<Rightarrow> ('a \<Rightarrow> bool) \<Rightarrow> 'a pyval list \<Rightarrow> (string \<times> 'a pyval) list \<Rightarrow>
     'a iter_graph_module \<Rightarrow> (graph_id \<times> (error + 'a pyval)) \<times> 'a iter_graph_module" where
  "forward exec has_len args kwargs m =
     (let m1 = m\<lparr>m_iter := m_iter m + 1\<rparr>;
          gm = select_gm m1;
          r = run exec has_len gm args kwargs m1
      in ((gm, fst r), snd r))"

text \<open>
  Successive calls of \<open>forward\<close>, one per element of the list of (args, kwargs); a call
  that raises leaves the module as it is at the raise, and the caller goes on. The result
  lists, for each call, the graph picked and what the call returned or raised.
\<close>

fun forward_calls ::
  "'a executor \<Rightarrow> ('a \<Rightarrow> bool) \<Rightarrow> ('a pyval list \<times> (string \<times> 'a pyval) list) list \<Rightarrow>
     'a iter_graph_module \<Rightarrow> (graph_id \<times> (error + 'a pyval)) list \<times> 'a iter_graph_module" where
  "forward_calls exec has_len [] m = ([], m)"
| "forward_calls exec has_len (c # cs) m =
     (let r = forward exec has_len (fst c) (snd c) m;
          rest = forward_calls exec has_len cs (snd r)
      in (fst r # fst rest, snd rest))"

section \<open>The specification's wording, for comparison\<close>



text \<open>
  The exported values as the specification words them: the values consumed by the block
  but produced outside it, deduplicated, in first-seen order over the block's traversal.
\<close>

definition spec_exported_values :: "node list \<Rightarrow> nat list \<Rightarrow> nat list" where
  "spec_exported_values ns subgraph =
     rev (remdups (rev (concat (map (\<lambda>node.
       filter (\<lambda>i. i \<notin> set subgraph)
         (leaf_nodes (flatten_args_kwargs (n_args (ns ! node)) (n_kwargs (ns ! node)))))
       subgraph))))"
section \<open>Concrete inputs\<close>

text \<open>
  An executor whose result shows how many arguments it received and which graph ran, and
  a dispatcher with one boundary value and a bound of two calls, before its first call
  (\<open>ex_module\<close>) and before its second (\<open>ex_module_last\<close>).
\<close>

definition ex_exec :: "nat executor" where
  "ex_exec g args kwargs =
     Inr (VTuple [VOther (length args), VOther (case g of Setup \<Rightarrow> 7 | Cleanup \<Rightarrow> 9 | Main \<Rightarrow> 8)])"

definition ex_has_len :: "nat \<Rightarrow> bool" where
  "ex_has_len v = True"




text \<open>
  A graph of four nodes built with the primitives: the placeholder \<open>x\<close> (node 0), the
  calls \<open>comm(x)\<close> (node 1, without users) and \<open>h(x)\<close> (node 2), and the output node
  (node 3) returning the tuple \<open>(h,)\<close>; an engine freshly constructed on three copies of
  it; and the same engine after the freeze.
\<close>

definition empty_graph :: graph where
  "empty_graph = \<lparr>g_nodes = [], g_order = []\<rparr>"

definition ex_graph :: graph where
  "ex_graph =
     snd (fx_output AtEnd (ArgTuple [ArgNode 2])
       (snd (fx_call_function AtEnd (TFun ''h'') [ArgNode 0] []
         (snd (fx_call_function AtEnd (TFun ''comm'') [ArgNode 0] []
           (snd (fx_placeholder AtEnd ''x'' empty_graph)))))))"

definition ex_engine :: iter_graph where
  "ex_engine = IterGraph_init ex_graph ex_graph ex_graph"

definition ex_frozen :: iter_graph where
  "ex_frozen = freeze_cross_iter_movement ex_engine"

text \<open>
  The example engine after three mirrored edits: the call \<open>f(h, 3)\<close>, the placeholder
  \<open>y\<close>, and the erasure of node 1.
\<close>

definition ex_edited :: iter_graph where
  "ex_edited =
     snd (erase_node 1
       (snd (placeholder ''y''
         (snd (call_function ''f'' [ArgNode 2, ArgInt 3] [] ex_engine)))))"

text \<open>
  An engine whose steady graph has one node more than its two other graphs, the call
  \<open>f(comm)\<close>: node 1 has a user in the steady graph and none in the setup and cleanup
  graphs.
\<close>

definition ex_skewed :: iter_graph where
  "ex_skewed =
     IterGraph_init (snd (fx_call_function AtEnd (TFun ''f'') [ArgNode 1] [] ex_graph))
       ex_graph ex_graph"

section \<open>Properties of the graph primitives\<close>

lemma keeps_refl [simp]: "keeps u nd nd"
  by (simp add: keeps_def)

lemma keeps_trans: "keeps u a b \<Longrightarrow> keeps u b c \<Longrightarrow> keeps u a c"
  unfolding keeps_def
  by (metis node.surjective node.update_convs(5))

lemma frame_refl [simp]: "frame u ns ns"
  by (simp add: frame_def)

lemma frame_trans: "frame u a b \<Longrightarrow> frame u b c \<Longrightarrow> frame u a c"
  unfolding frame_def using keeps_trans by metis

lemma frame_length: "frame u ns ns' \<Longrightarrow> length ns' = length ns"
  by (simp add: frame_def)

lemma keeps_users_upd: "(\<forall>v. v \<noteq> u \<longrightarrow> (v \<in> set us \<longleftrightarrow> v \<in> set (n_users nd))) \<Longrightarrow> keeps u nd (nd\<lparr>n_users := us\<rparr>)"
  by (simp add: keeps_def)

lemma frame_upd:
  assumes "\<forall>v. v \<noteq> u \<longrightarrow> (v \<in> set us \<longleftrightarrow> v \<in> set (n_users (ns ! i)))"
  shows "frame u ns (ns[i := (ns ! i)\<lparr>n_users := us\<rparr>])"
  unfolding frame_def
proof (intro conjI allI impI)
  show "length (ns[i := (ns ! i)\<lparr>n_users := us\<rparr>]) = length ns" by simp
next
  fix j assume "j < length ns"
  then show "keeps u (ns ! j) (ns[i := (ns ! i)\<lparr>n_users := us\<rparr>] ! j)"
    using assms by (cases "i = j") (simp_all add: keeps_users_upd)
qed

lemma add_user_frame: "frame u ns (add_user u i ns)"
proof (cases "i < length ns")
  case True
  have "frame u ns (ns[i := (ns ! i)\<lparr>n_users := (if u \<in> set (n_users (ns ! i)) then n_users (ns ! i) else n_users (ns ! i) @ [u])\<rparr>])"
    by (rule frame_upd) auto
  with True show ?thesis by (simp add: add_user_def)
next
  case False
  then show ?thesis by (simp add: add_user_def)
qed

lemma fold_add_user_frame: "frame u ns (fold (add_user u) js ns)"
proof (induction js arbitrary: ns)
  case Nil
  show ?case by simp
next
  case (Cons i js)
  have "frame u ns (add_user u i ns)" by (rule add_user_frame)
  moreover have "frame u (add_user u i ns) (fold (add_user u) js (add_user u i ns))" by (rule Cons.IH)
  ultimately show ?case using frame_trans by simp
qed

lemma pop_user_frame: "pop_user u js ns = (r, ns') \<Longrightarrow> frame u ns ns'"
proof (induction js arbitrary: ns)
  case Nil
  then show ?case by simp
next
  case (Cons i js)
  show ?case
  proof (cases "i < length ns")
    case True
    show ?thesis
    proof (cases "u \<in> set (n_users (ns ! i))")
      case T: True
      let ?ns1 = "ns[i := (ns ! i)\<lparr>n_users := removeAll u (n_users (ns ! i))\<rparr>]"
      from T True Cons.prems have "pop_user u js ?ns1 = (r, ns')" by simp
      from Cons.IH[OF this] have "frame u ?ns1 ns'" .
      moreover have "frame u ns ?ns1" by (rule frame_upd) auto
      ultimately show ?thesis using frame_trans by blast
    next
      case False
      with True Cons.prems show ?thesis by simp
    qed
  next
    case False
    with Cons.prems have "pop_user u js ns = (r, ns')" by simp
    from Cons.IH[OF this] show ?thesis .
  qed
qed

lemma add_user_mem:
  "i < length ns \<Longrightarrow> u \<in> set (n_users (add_user u i ns ! i))"
  by (simp add: add_user_def)

lemma add_user_mono:
  "j < length ns \<Longrightarrow> v \<in> set (n_users (ns ! j)) \<Longrightarrow> v \<in> set (n_users (add_user u i ns ! j))"
  by (cases "i = j") (auto simp: add_user_def)

lemma fold_add_user_mono:
  "j < length ns \<Longrightarrow> v \<in> set (n_users (ns ! j)) \<Longrightarrow> v \<in> set (n_users (fold (add_user u) js ns ! j))"
proof (induction js arbitrary: ns)
  case Nil
  then show ?case by simp
next
  case (Cons i js)
  have "v \<in> set (n_users (add_user u i ns ! j))" using Cons.prems by (rule add_user_mono)
  moreover have "j < length (add_user u i ns)" using Cons.prems(1) by (simp add: add_user_def)
  ultimately show ?case using Cons.IH by simp
qed

lemma fold_add_user_mem:
  "i \<in> set js \<Longrightarrow> i < length ns \<Longrightarrow> u \<in> set (n_users (fold (add_user u) js ns ! i))"
proof (induction js arbitrary: ns)
  case Nil
  then show ?case by simp
next
  case (Cons k js)
  have len: "i < length (add_user u k ns)" using Cons.prems(2) by (simp add: add_user_def)
  show ?case
  proof (cases "i = k")
    case True
    then have "u \<in> set (n_users (add_user u k ns ! i))" using Cons.prems(2) by (simp add: add_user_mem)
    from fold_add_user_mono[OF len this] show ?thesis by simp
  next
    case False
    with Cons.prems have "i \<in> set js" by simp
    from Cons.IH[OF this len] show ?thesis by simp
  qed
qed

lemma pop_user_ok:
  "distinct js \<Longrightarrow> (\<forall>i \<in> set js. i < length ns \<longrightarrow> u \<in> set (n_users (ns ! i))) \<Longrightarrow>
   fst (pop_user u js ns) = Inr ()"
proof (induction js arbitrary: ns)
  case Nil
  then show ?case by simp
next
  case (Cons i js)
  show ?case
  proof (cases "i < length ns")
    case True
    let ?ns1 = "ns[i := (ns ! i)\<lparr>n_users := removeAll u (n_users (ns ! i))\<rparr>]"
    from True Cons.prems have m: "u \<in> set (n_users (ns ! i))" by simp
    have "\<forall>k \<in> set js. k < length ?ns1 \<longrightarrow> u \<in> set (n_users (?ns1 ! k))"
    proof (intro ballI impI)
      fix k assume k: "k \<in> set js" "k < length ?ns1"
      with Cons.prems(1) have "k \<noteq> i" by auto
      with k Cons.prems(2) show "u \<in> set (n_users (?ns1 ! k))" by simp
    qed
    moreover have "distinct js" using Cons.prems(1) by simp
    ultimately have "fst (pop_user u js ?ns1) = Inr ()" by (rule Cons.IH[rotated])
    with True m show ?thesis by simp
  next
    case False
    have "fst (pop_user u js ns) = Inr ()" using Cons.prems by (intro Cons.IH) auto
    with False show ?thesis by simp
  qed
qed

lemma well_formed_iff:
  "well_formed g \<longleftrightarrow>
     (\<forall>n < length (g_nodes g).
        distinct (n_input_nodes (g_nodes g ! n)) \<and>
        (\<forall>i \<in> set (n_input_nodes (g_nodes g ! n)).
           i < length (g_nodes g) \<and> UserNode n \<in> set (n_users (g_nodes g ! i))))
     \<and> (\<forall>n \<in> set (g_order g). n < length (g_nodes g))
     \<and> distinct (g_order g)"
  by (auto simp: well_formed_def list_all_iff)

lemma keeps_fields:
  assumes "keeps u nd nd'"
  shows "n_op nd' = n_op nd" "n_target nd' = n_target nd" "n_args nd' = n_args nd"
    "n_kwargs nd' = n_kwargs nd" "n_input_nodes nd' = n_input_nodes nd" "n_erased nd' = n_erased nd"
proof -
  from assms have e: "nd' = nd\<lparr>n_users := n_users nd'\<rparr>" by (simp add: keeps_def)
  show "n_op nd' = n_op nd" by (subst e) simp
  show "n_target nd' = n_target nd" by (subst e) simp
  show "n_args nd' = n_args nd" by (subst e) simp
  show "n_kwargs nd' = n_kwargs nd" by (subst e) simp
  show "n_input_nodes nd' = n_input_nodes nd" by (subst e) simp
  show "n_erased nd' = n_erased nd" by (subst e) simp
qed

lemma keeps_mem: "keeps u nd nd' \<Longrightarrow> v \<noteq> u \<Longrightarrow> v \<in> set (n_users nd') \<longleftrightarrow> v \<in> set (n_users nd)"
  by (simp add: keeps_def)

lemma frame_nth: "frame u ns ns' \<Longrightarrow> j < length ns \<Longrightarrow> keeps u (ns ! j) (ns' ! j)"
  by (simp add: frame_def)

lemma input_nodes_of_distinct [simp]: "distinct (input_nodes_of a k)"
  by (simp add: input_nodes_of_def)

lemma keeps_upd_inputs:
  "keeps u X Y \<Longrightarrow> keeps u (X\<lparr>n_input_nodes := w\<rparr>) (Y\<lparr>n_input_nodes := w\<rparr>)"
  by (cases X; cases Y) (auto simp: keeps_def)

lemma update_args_kwargs_post:
  assumes n: "n < length ns"
    and d: "distinct (n_input_nodes (ns ! n))"
    and c: "\<forall>i \<in> set (n_input_nodes (ns ! n)). i < length ns \<longrightarrow> UserNode n \<in> set (n_users (ns ! i))"
  shows "\<exists>ns'. update_args_kwargs n a k ns = (Inr (), ns')
      \<and> length ns' = length ns
      \<and> (\<forall>j < length ns. j \<noteq> n \<longrightarrow> keeps (UserNode n) (ns ! j) (ns' ! j))
      \<and> keeps (UserNode n) ((ns ! n)\<lparr>n_args := a, n_kwargs := k, n_input_nodes := input_nodes_of a k\<rparr>) (ns' ! n)
      \<and> (\<forall>i \<in> set (input_nodes_of a k). i < length ns \<longrightarrow> UserNode n \<in> set (n_users (ns' ! i)))"
proof -
  let ?u = "UserNode n"
  let ?X = "(ns ! n)\<lparr>n_args := a, n_kwargs := k\<rparr>"
  let ?ns1 = "ns[n := ?X]"
  let ?new = "input_nodes_of a k"
  have u1: "n_users (?ns1 ! i) = n_users (ns ! i)" if "i < length ns" for i
    using that by (cases "i = n") simp_all
  have pre: "\<forall>i \<in> set (n_input_nodes (ns ! n)). i < length ?ns1 \<longrightarrow> ?u \<in> set (n_users (?ns1 ! i))"
    using c u1 by simp
  obtain r2 ns2 where p: "pop_user ?u (n_input_nodes (ns ! n)) ?ns1 = (r2, ns2)"
    by (cases "pop_user ?u (n_input_nodes (ns ! n)) ?ns1") auto
  from pop_user_ok[OF d pre] p have r2: "r2 = Inr ()" by simp
  have f12: "frame ?u ?ns1 ns2" using p by (rule pop_user_frame)
  then have l2: "length ns2 = length ns" by (simp add: frame_def)
  let ?ns3 = "ns2[n := (ns2 ! n)\<lparr>n_input_nodes := ?new\<rparr>]"
  let ?ns' = "fold (add_user ?u) ?new ?ns3"
  have res: "update_args_kwargs n a k ns = (Inr (), ?ns')"
    using p r2 by (simp add: update_args_kwargs_def Let_def)
  have f3: "frame ?u ?ns3 ?ns'" by (rule fold_add_user_frame)
  then have l': "length ?ns' = length ns" using l2 by (simp add: frame_def)
  have other: "keeps ?u (ns ! j) (?ns' ! j)" if "j < length ns" "j \<noteq> n" for j
  proof -
    from that have nj: "n \<noteq> j" by simp
    have "keeps ?u (?ns1 ! j) (ns2 ! j)" using frame_nth[OF f12, of j] that by simp
    then have a: "keeps ?u (ns ! j) (ns2 ! j)" using nj by simp
    have "keeps ?u (?ns3 ! j) (?ns' ! j)" using frame_nth[OF f3, of j] that l2 by simp
    then have b: "keeps ?u (ns2 ! j) (?ns' ! j)" using nj by simp
    from a b show ?thesis by (rule keeps_trans)
  qed
  have self: "keeps ?u (?X\<lparr>n_input_nodes := ?new\<rparr>) (?ns' ! n)"
  proof -
    have "keeps ?u (?ns1 ! n) (ns2 ! n)" using frame_nth[OF f12, of n] n by simp
    then have a: "keeps ?u ?X (ns2 ! n)" using n by simp
    have "keeps ?u (?ns3 ! n) (?ns' ! n)" using frame_nth[OF f3, of n] n l2 by simp
    then have b: "keeps ?u ((ns2 ! n)\<lparr>n_input_nodes := ?new\<rparr>) (?ns' ! n)" using n l2 by simp
    have "keeps ?u (?X\<lparr>n_input_nodes := ?new\<rparr>) ((ns2 ! n)\<lparr>n_input_nodes := ?new\<rparr>)"
      using a by (rule keeps_upd_inputs)
    then show ?thesis using b by (rule keeps_trans)
  qed
  have mem: "\<forall>i \<in> set ?new. i < length ns \<longrightarrow> ?u \<in> set (n_users (?ns' ! i))"
  proof (intro ballI impI)
    fix i assume "i \<in> set ?new" "i < length ns"
    then show "?u \<in> set (n_users (?ns' ! i))"
      using fold_add_user_mem[of i ?new ?ns3 ?u] l2 by simp
  qed
  have self': "keeps ?u ((ns ! n)\<lparr>n_args := a, n_kwargs := k, n_input_nodes := ?new\<rparr>) (?ns' ! n)"
    using self by simp
  from res l' other self' mem show ?thesis by blast
qed

lemma fold_add_user_length [simp]: "length (fold (add_user u) js ns) = length ns"
  using fold_add_user_frame[of u ns js] by (simp add: frame_def)

lemma leaf_nodes_append [simp]: "leaf_nodes (xs @ ys) = leaf_nodes xs @ leaf_nodes ys"
  by (induction xs rule: leaf_nodes.induct) simp_all

lemma leaf_nodes_concat_empty:
  "(\<And>x. x \<in> set xss \<Longrightarrow> leaf_nodes x = []) \<Longrightarrow> leaf_nodes (concat xss) = []"
  by (induction xss) simp_all

lemma leaf_nodes_null [simp]: "leaf_nodes (tree_flatten (map_arg (\<lambda>n. None) a)) = []"
proof (induction a rule: tree_flatten.induct)
  case (1 xs)
  have "leaf_nodes (concat (map tree_flatten (map (map_arg (\<lambda>n. None)) xs))) = []"
  proof (rule leaf_nodes_concat_empty)
    fix x assume "x \<in> set (map tree_flatten (map (map_arg (\<lambda>n. None)) xs))"
    then obtain y where "y \<in> set xs" "x = tree_flatten (map_arg (\<lambda>n. None) y)" by auto
    with 1 show "leaf_nodes x = []" by simp
  qed
  then show ?case by simp
qed simp_all

lemma input_nodes_of_null [simp]:
  "input_nodes_of (map (map_arg (\<lambda>n. None)) a) (map_kwargs (\<lambda>n. None) k) = []"
proof -
  have "leaf_nodes (concat (map tree_flatten (map (map_arg (\<lambda>n. None)) a))) = []"
    by (rule leaf_nodes_concat_empty) auto
  moreover have "leaf_nodes (concat (map (\<lambda>kv. tree_flatten (snd kv)) (map_kwargs (\<lambda>n. None) k))) = []"
    by (rule leaf_nodes_concat_empty) (auto simp: map_kwargs_def)
  ultimately show ?thesis by (simp add: input_nodes_of_def flatten_args_kwargs_def)
qed

lemma set_insert_before [simp]: "set (insert_before t x xs) = insert x (set xs)"
  by (induction xs) auto

lemma set_insert_after [simp]: "set (insert_after t x xs) = insert x (set xs)"
  by (induction xs) auto

lemma set_insert_at [simp]: "set (insert_at pt x xs) = insert x (set xs)"
  by (cases pt) (simp_all add: insert_at_def)

lemma distinct_insert_before: "x \<notin> set xs \<Longrightarrow> distinct xs \<Longrightarrow> distinct (insert_before t x xs)"
  by (induction xs) auto

lemma distinct_insert_after: "x \<notin> set xs \<Longrightarrow> distinct xs \<Longrightarrow> distinct (insert_after t x xs)"
  by (induction xs) auto

lemma distinct_insert_at: "x \<notin> set xs \<Longrightarrow> distinct xs \<Longrightarrow> distinct (insert_at pt x xs)"
  by (cases pt) (simp_all add: insert_at_def distinct_insert_before distinct_insert_after)

lemma length_insert_before [simp]: "length (insert_before t x xs) = Suc (length xs)"
  by (induction xs) auto

lemma length_insert_after [simp]: "length (insert_after t x xs) = Suc (length xs)"
  by (induction xs) auto

lemma length_insert_at [simp]: "length (insert_at pt x xs) = Suc (length xs)"
  by (cases pt) (simp_all add: insert_at_def)

lemma fx_create_node_fst [simp]: "fst (fx_create_node pt op t a k g) = length (g_nodes g)"
  by (simp add: fx_create_node_def Let_def)

lemma fx_create_node_order [simp]:
  "g_order (snd (fx_create_node pt op t a k g)) = insert_at pt (length (g_nodes g)) (g_order g)"
  by (simp add: fx_create_node_def Let_def)

lemma fx_create_node_length [simp]:
  "length (g_nodes (snd (fx_create_node pt op t a k g))) = Suc (length (g_nodes g))"
  by (simp add: fx_create_node_def Let_def)

lemma fx_create_node_nodes:
  "g_nodes (snd (fx_create_node pt op t a k g)) =
     fold (add_user (UserNode (length (g_nodes g)))) (input_nodes_of a k) (g_nodes g) @
     [\<lparr>n_op = op, n_target = t, n_args = a, n_kwargs = k, n_users = [],
       n_input_nodes = input_nodes_of a k, n_erased = False\<rparr>]"
  by (simp add: fx_create_node_def Let_def)

lemma fx_create_node_well_formed:
  assumes wf: "well_formed g"
    and inp: "\<forall>i \<in> set (input_nodes_of a k). i < length (g_nodes g)"
  shows "well_formed (snd (fx_create_node pt op t a k g))"
proof -
  let ?N = "length (g_nodes g)"
  let ?u = "UserNode ?N"
  let ?new = "input_nodes_of a k"
  let ?old = "fold (add_user ?u) ?new (g_nodes g)"
  let ?nd = "\<lparr>n_op = op, n_target = t, n_args = a, n_kwargs = k, n_users = [],
       n_input_nodes = ?new, n_erased = False\<rparr>"
  let ?g' = "snd (fx_create_node pt op t a k g)"
  have nodes: "g_nodes ?g' = ?old @ [?nd]" by (rule fx_create_node_nodes)
  have lo: "length ?old = ?N" by simp
  have fr: "frame ?u (g_nodes g) ?old" by (rule fold_add_user_frame)
  from wf have w1: "\<And>n. n < ?N \<Longrightarrow> distinct (n_input_nodes (g_nodes g ! n))"
    and w2: "\<And>n i. n < ?N \<Longrightarrow> i \<in> set (n_input_nodes (g_nodes g ! n)) \<Longrightarrow>
               i < ?N \<and> UserNode n \<in> set (n_users (g_nodes g ! i))"
    and w3: "\<And>n. n \<in> set (g_order g) \<Longrightarrow> n < ?N"
    and w4: "distinct (g_order g)"
    by (auto simp: well_formed_iff)
  have nth_old: "(?old @ [?nd]) ! j = ?old ! j" if "j < ?N" for j
    using that lo by (simp add: nth_append)
  have nth_new: "(?old @ [?nd]) ! ?N = ?nd"
    using lo by (simp add: nth_append)
  have A: "distinct (n_input_nodes (g_nodes ?g' ! n)) \<and>
        (\<forall>i \<in> set (n_input_nodes (g_nodes ?g' ! n)).
           i < length (g_nodes ?g') \<and> UserNode n \<in> set (n_users (g_nodes ?g' ! i)))"
    if n: "n < length (g_nodes ?g')" for n
  proof (cases "n < ?N")
    case True
    have k: "keeps ?u (g_nodes g ! n) (?old ! n)" using frame_nth[OF fr True] .
    have inp_eq: "n_input_nodes (g_nodes ?g' ! n) = n_input_nodes (g_nodes g ! n)"
      using keeps_fields(5)[OF k] nodes nth_old[OF True] by simp
    have "i < length (g_nodes ?g') \<and> UserNode n \<in> set (n_users (g_nodes ?g' ! i))"
      if i: "i \<in> set (n_input_nodes (g_nodes g ! n))" for i
    proof -
      from w2[OF True i] have iN: "i < ?N" and m: "UserNode n \<in> set (n_users (g_nodes g ! i))" by auto
      have "UserNode n \<in> set (n_users (?old ! i))" using fold_add_user_mono[OF iN m] .
      then show ?thesis using iN nodes nth_old[OF iN] by simp
    qed
    with w1[OF True] inp_eq show ?thesis by simp
  next
    case False
    with n have nN: "n = ?N" by simp
    have nd: "g_nodes ?g' ! n = ?nd" using nN nodes nth_new by simp
    have "i < length (g_nodes ?g') \<and> UserNode n \<in> set (n_users (g_nodes ?g' ! i))"
      if i: "i \<in> set ?new" for i
    proof -
      from inp i have iN: "i < ?N" by simp
      have "?u \<in> set (n_users (?old ! i))" using fold_add_user_mem[OF i iN] .
      then show ?thesis using iN nN nodes nth_old[OF iN] by simp
    qed
    with nd show ?thesis by simp
  qed
  have B: "\<forall>n \<in> set (g_order ?g'). n < length (g_nodes ?g')"
    using w3 by (auto simp: less_Suc_eq)
  have "?N \<notin> set (g_order g)" using w3 by auto
  then have C: "distinct (g_order ?g')" using w4 by (simp add: distinct_insert_at)
  from A B C show ?thesis unfolding well_formed_iff by blast
qed

lemma fx_erase_node_early:
  "\<not> n < length (g_nodes g) \<Longrightarrow> fx_erase_node n g = (Inl InvalidNode, g)"
  "n < length (g_nodes g) \<Longrightarrow> n_users (g_nodes g ! n) \<noteq> [] \<Longrightarrow> fx_erase_node n g = (Inl RuntimeError, g)"
  "n < length (g_nodes g) \<Longrightarrow> n_users (g_nodes g ! n) = [] \<Longrightarrow> n_erased (g_nodes g ! n) \<Longrightarrow>
     fx_erase_node n g = (Inr (), g)"
  by (simp_all add: fx_erase_node_def)

lemma fx_erase_node_ok:
  assumes wf: "well_formed g"
    and n: "n < length (g_nodes g)"
    and nu: "n_users (g_nodes g ! n) = []"
    and ne: "\<not> n_erased (g_nodes g ! n)"
  shows "\<exists>g'. fx_erase_node n g = (Inr (), g')
      \<and> well_formed g'
      \<and> g_order g' = removeAll n (g_order g)
      \<and> length (g_nodes g') = length (g_nodes g)
      \<and> (\<forall>j < length (g_nodes g). j \<noteq> n \<longrightarrow> keeps (UserNode n) (g_nodes g ! j) (g_nodes g' ! j))
      \<and> n_erased (g_nodes g' ! n)
      \<and> n_op (g_nodes g' ! n) = n_op (g_nodes g ! n)
      \<and> n_target (g_nodes g' ! n) = n_target (g_nodes g ! n)"
proof -
  let ?ns = "g_nodes g"
  let ?N = "length ?ns"
  let ?u = "UserNode n"
  let ?nd = "?ns ! n"
  let ?ns1 = "?ns[n := ?nd\<lparr>n_erased := True\<rparr>]"
  let ?A = "map (map_arg (\<lambda>n. None)) (n_args ?nd)"
  let ?K = "n_kwargs ?nd"
  let ?K' = "map_kwargs (\<lambda>n. None) ?K"
  let ?new1 = "input_nodes_of ?A ?K"
  from wf have w1: "\<And>m. m < ?N \<Longrightarrow> distinct (n_input_nodes (?ns ! m))"
    and w2: "\<And>m i. m < ?N \<Longrightarrow> i \<in> set (n_input_nodes (?ns ! m)) \<Longrightarrow>
               i < ?N \<and> UserNode m \<in> set (n_users (?ns ! i))"
    and w3: "\<And>m. m \<in> set (g_order g) \<Longrightarrow> m < ?N"
    and w4: "distinct (g_order g)"
    by (auto simp: well_formed_iff)
  have l1: "length ?ns1 = ?N" by simp
  have n1: "n < length ?ns1" using n by simp
  have s1: "?ns1 ! n = ?nd\<lparr>n_erased := True\<rparr>" using n by simp
  have o1: "?ns1 ! j = ?ns ! j" if "j \<noteq> n" for j using that by simp
  have us1: "n_users (?ns1 ! i) = n_users (?ns ! i)" for i
    by (cases "i = n"; cases "n < ?N"; simp add: list_update_beyond not_less)
  have d1: "distinct (n_input_nodes (?ns1 ! n))" using s1 w1[OF n] by simp
  have c1: "\<forall>i \<in> set (n_input_nodes (?ns1 ! n)). i < length ?ns1 \<longrightarrow> ?u \<in> set (n_users (?ns1 ! i))"
    using s1 w2[OF n] us1 by simp
  from update_args_kwargs_post[OF n1 d1 c1, of ?A ?K]
  obtain ns2 where u1: "update_args_kwargs n ?A ?K ?ns1 = (Inr (), ns2)"
    and l2: "length ns2 = ?N"
    and k2: "\<And>j. j < ?N \<Longrightarrow> j \<noteq> n \<Longrightarrow> keeps ?u (?ns1 ! j) (ns2 ! j)"
    and e2: "keeps ?u ((?ns1 ! n)\<lparr>n_args := ?A, n_kwargs := ?K, n_input_nodes := ?new1\<rparr>) (ns2 ! n)"
    and m2: "\<forall>i \<in> set ?new1. i < length ?ns1 \<longrightarrow> ?u \<in> set (n_users (ns2 ! i))"
    by (auto simp: l1)
  have a2: "n_args (ns2 ! n) = ?A" using keeps_fields(3)[OF e2] by simp
  have kw2: "n_kwargs (ns2 ! n) = ?K" using keeps_fields(4)[OF e2] by simp
  have i2: "n_input_nodes (ns2 ! n) = ?new1" using keeps_fields(5)[OF e2] by simp
  have er2: "n_erased (ns2 ! n)" using keeps_fields(6)[OF e2] s1 by simp
  have op2: "n_op (ns2 ! n) = n_op ?nd" using keeps_fields(1)[OF e2] s1 by simp
  have tg2: "n_target (ns2 ! n) = n_target ?nd" using keeps_fields(2)[OF e2] s1 by simp
  have n2: "n < length ns2" using n l2 by simp
  have d2: "distinct (n_input_nodes (ns2 ! n))" using i2 by simp
  have c2: "\<forall>i \<in> set (n_input_nodes (ns2 ! n)). i < length ns2 \<longrightarrow> ?u \<in> set (n_users (ns2 ! i))"
    using m2 i2 l2 by simp
  from update_args_kwargs_post[OF n2 d2 c2, of ?A ?K']
  obtain ns3 where u2: "update_args_kwargs n ?A ?K' ns2 = (Inr (), ns3)"
    and l3: "length ns3 = ?N"
    and k3: "\<And>j. j < ?N \<Longrightarrow> j \<noteq> n \<Longrightarrow> keeps ?u (ns2 ! j) (ns3 ! j)"
    and e3: "keeps ?u ((ns2 ! n)\<lparr>n_args := ?A, n_kwargs := ?K', n_input_nodes := input_nodes_of ?A ?K'\<rparr>) (ns3 ! n)"
    by (auto simp: l2)
  have i3: "n_input_nodes (ns3 ! n) = []" using keeps_fields(5)[OF e3] by simp
  have er3: "n_erased (ns3 ! n)" using keeps_fields(6)[OF e3] er2 by simp
  have op3: "n_op (ns3 ! n) = n_op ?nd" using keeps_fields(1)[OF e3] op2 by simp
  have tg3: "n_target (ns3 ! n) = n_target ?nd" using keeps_fields(2)[OF e3] tg2 by simp
  let ?g' = "g\<lparr>g_nodes := ns3, g_order := removeAll n (g_order g)\<rparr>"
  have res: "fx_erase_node n g = (Inr (), ?g')"
    using n nu ne u1 u2 a2 kw2 by (simp add: fx_erase_node_def Let_def)
  have others: "keeps ?u (?ns ! j) (ns3 ! j)" if "j < ?N" "j \<noteq> n" for j
  proof -
    have "keeps ?u (?ns ! j) (ns2 ! j)" using k2[OF that] o1[OF that(2)] by simp
    then show ?thesis using k3[OF that] by (rule keeps_trans)
  qed
  have A: "distinct (n_input_nodes (ns3 ! m)) \<and>
        (\<forall>i \<in> set (n_input_nodes (ns3 ! m)). i < length ns3 \<and> UserNode m \<in> set (n_users (ns3 ! i)))"
    if m: "m < length ns3" for m
  proof (cases "m = n")
    case True
    with i3 show ?thesis by simp
  next
    case False
    from m l3 have mN: "m < ?N" by simp
    have km: "keeps ?u (?ns ! m) (ns3 ! m)" using others[OF mN False] .
    have ie: "n_input_nodes (ns3 ! m) = n_input_nodes (?ns ! m)" using keeps_fields(5)[OF km] .
    have "i < length ns3 \<and> UserNode m \<in> set (n_users (ns3 ! i))"
      if i: "i \<in> set (n_input_nodes (?ns ! m))" for i
    proof -
      from w2[OF mN i] have iN: "i < ?N" and mem: "UserNode m \<in> set (n_users (?ns ! i))" by auto
      from mem nu have "i \<noteq> n" by auto
      from others[OF iN this] have "keeps ?u (?ns ! i) (ns3 ! i)" .
      from keeps_mem[OF this, of "UserNode m"] False mem
      have "UserNode m \<in> set (n_users (ns3 ! i))" by simp
      with iN l3 show ?thesis by simp
    qed
    with w1[OF mN] ie show ?thesis by simp
  qed
  have wf': "well_formed ?g'"
    unfolding well_formed_iff using A w3 w4 l3 by (simp add: distinct_removeAll)
  from res wf' l3 others er3 op3 tg3 show ?thesis by auto
qed

lemma fx_erase_node_cases:
  assumes wf: "well_formed g"
  shows "(fst (fx_erase_node n g) = Inr () \<or> snd (fx_erase_node n g) = g)
       \<and> well_formed (snd (fx_erase_node n g))
       \<and> length (g_nodes (snd (fx_erase_node n g))) = length (g_nodes g)"
proof (cases "n < length (g_nodes g)")
  case False
  then show ?thesis using wf by (simp add: fx_erase_node_early)
next
  case True
  show ?thesis
  proof (cases "n_users (g_nodes g ! n) = []")
    case False
    with True show ?thesis using wf by (simp add: fx_erase_node_early)
  next
    case nu: True
    show ?thesis
    proof (cases "n_erased (g_nodes g ! n)")
      case True
      with \<open>n < length (g_nodes g)\<close> nu show ?thesis using wf by (simp add: fx_erase_node_early)
    next
      case False
      from fx_erase_node_ok[OF wf \<open>n < length (g_nodes g)\<close> nu False]
      show ?thesis by auto
    qed
  qed
qed

lemma upd_static:
  "length (ns[i := (ns ! i)\<lparr>n_args := a, n_kwargs := k\<rparr>]) = length ns"
  "n_erased (ns[i := (ns ! i)\<lparr>n_args := a, n_kwargs := k\<rparr>] ! j) = n_erased (ns ! j)"
  "n_op (ns[i := (ns ! i)\<lparr>n_args := a, n_kwargs := k\<rparr>] ! j) = n_op (ns ! j)"
  "n_target (ns[i := (ns ! i)\<lparr>n_args := a, n_kwargs := k\<rparr>] ! j) = n_target (ns ! j)"
  "n_erased (ns[i := (ns ! i)\<lparr>n_input_nodes := w\<rparr>] ! j) = n_erased (ns ! j)"
  "n_op (ns[i := (ns ! i)\<lparr>n_input_nodes := w\<rparr>] ! j) = n_op (ns ! j)"
  "n_target (ns[i := (ns ! i)\<lparr>n_input_nodes := w\<rparr>] ! j) = n_target (ns ! j)"
  by (cases "i = j"; cases "i < length ns"; simp add: list_update_beyond not_less)+

lemma update_args_kwargs_static:
  assumes "update_args_kwargs n a k ns = (r, ns')"
  shows "length ns' = length ns"
    and "j < length ns \<Longrightarrow> n_erased (ns' ! j) = n_erased (ns ! j)"
    and "j < length ns \<Longrightarrow> n_op (ns' ! j) = n_op (ns ! j)"
    and "j < length ns \<Longrightarrow> n_target (ns' ! j) = n_target (ns ! j)"
proof -
  let ?u = "UserNode n"
  let ?ns1 = "ns[n := (ns ! n)\<lparr>n_args := a, n_kwargs := k\<rparr>]"
  obtain r2 ns2 where p: "pop_user ?u (n_input_nodes (ns ! n)) ?ns1 = (r2, ns2)"
    by (cases "pop_user ?u (n_input_nodes (ns ! n)) ?ns1") auto
  have f12: "frame ?u ?ns1 ns2" using p by (rule pop_user_frame)
  have l2: "length ns2 = length ns" using frame_length[OF f12] by simp
  let ?ns3 = "ns2[n := (ns2 ! n)\<lparr>n_input_nodes := input_nodes_of a k\<rparr>]"
  let ?ns4 = "fold (add_user ?u) (input_nodes_of a k) ?ns3"
  have f34: "frame ?u ?ns3 ?ns4" by (rule fold_add_user_frame)
  have k12: "keeps ?u (?ns1 ! j) (ns2 ! j)" if "j < length ns" for j
    using frame_nth[OF f12, of j] that by simp
  have k34: "keeps ?u (?ns3 ! j) (?ns4 ! j)" if "j < length ns" for j
    using frame_nth[OF f34, of j] that l2 by simp
  have s2: "n_erased (ns2 ! j) = n_erased (ns ! j) \<and> n_op (ns2 ! j) = n_op (ns ! j)
            \<and> n_target (ns2 ! j) = n_target (ns ! j)" if "j < length ns" for j
    using keeps_fields(1,2,6)[OF k12[OF that]] by (simp add: upd_static)
  have s4: "n_erased (?ns4 ! j) = n_erased (ns ! j) \<and> n_op (?ns4 ! j) = n_op (ns ! j)
            \<and> n_target (?ns4 ! j) = n_target (ns ! j)" if "j < length ns" for j
    using keeps_fields(1,2,6)[OF k34[OF that]] s2[OF that] by (simp add: upd_static)
  have cases: "ns' = ns2 \<or> ns' = ?ns4"
    using assms p by (cases r2) (simp_all add: update_args_kwargs_def Let_def)
  show "length ns' = length ns" using cases l2 by auto
  show "j < length ns \<Longrightarrow> n_erased (ns' ! j) = n_erased (ns ! j)" using cases s2 s4 by auto
  show "j < length ns \<Longrightarrow> n_op (ns' ! j) = n_op (ns ! j)" using cases s2 s4 by auto
  show "j < length ns \<Longrightarrow> n_target (ns' ! j) = n_target (ns ! j)" using cases s2 s4 by auto
qed

lemma fx_erase_node_static:
  assumes "fx_erase_node k g = (r, g')"
  shows "length (g_nodes g') = length (g_nodes g)"
    and "j < length (g_nodes g) \<Longrightarrow> n_op (g_nodes g' ! j) = n_op (g_nodes g ! j)"
    and "j < length (g_nodes g) \<Longrightarrow> n_target (g_nodes g' ! j) = n_target (g_nodes g ! j)"
    and "r = Inr u \<Longrightarrow> k < length (g_nodes g) \<and> n_erased (g_nodes g' ! k)"
    and "g_order g' = g_order g \<or> g_order g' = removeAll k (g_order g)"
proof -
  let ?ns = "g_nodes g"
  let ?nd = "?ns ! k"
  let ?ns1 = "?ns[k := ?nd\<lparr>n_erased := True\<rparr>]"
  let ?A = "map (map_arg (\<lambda>n. None)) (n_args ?nd)"
  obtain r2 ns2 where u1: "update_args_kwargs k ?A (n_kwargs ?nd) ?ns1 = (r2, ns2)"
    by (cases "update_args_kwargs k ?A (n_kwargs ?nd) ?ns1") auto
  obtain r3 ns3 where u2: "update_args_kwargs k (n_args (ns2 ! k)) (map_kwargs (\<lambda>n. None) (n_kwargs (ns2 ! k))) ns2 = (r3, ns3)"
    by (cases "update_args_kwargs k (n_args (ns2 ! k)) (map_kwargs (\<lambda>n. None) (n_kwargs (ns2 ! k))) ns2") auto
  note st1 = update_args_kwargs_static[OF u1]
  note st2 = update_args_kwargs_static[OF u2]
  have l2: "length ns2 = length ?ns" using st1(1) by simp
  have l3: "length ns3 = length ?ns" using st2(1) l2 by simp
  have f1: "n_op (?ns1 ! j) = n_op (?ns ! j) \<and> n_target (?ns1 ! j) = n_target (?ns ! j)" for j
    by (cases "k = j"; cases "k < length ?ns"; simp add: list_update_beyond not_less)
  have f2: "n_op (ns2 ! j) = n_op (?ns ! j) \<and> n_target (ns2 ! j) = n_target (?ns ! j)"
    if "j < length ?ns" for j
    using st1(3,4)[of j] that f1[of j] by simp
  have f3: "n_op (ns3 ! j) = n_op (?ns ! j) \<and> n_target (ns3 ! j) = n_target (?ns ! j)"
    if "j < length ?ns" for j
    using st2(3,4)[of j] that f2[OF that] l2 by simp
  have e2: "n_erased (ns2 ! k)" if "k < length ?ns" using st1(2)[of k] that by simp
  have e3: "n_erased (ns3 ! k)" if "k < length ?ns" using st2(2)[of k] that e2 l2 by simp
  consider (early) "g' = g" "r = Inr u \<longrightarrow> k < length ?ns \<and> n_erased ?nd"
    | (stop) "k < length ?ns" "g' = g\<lparr>g_nodes := ns2, g_order := removeAll k (g_order g)\<rparr>" "\<exists>e. r = Inl e"
    | (fin) "k < length ?ns" "g' = g\<lparr>g_nodes := ns3, g_order := removeAll k (g_order g)\<rparr>"
  proof (cases "\<not> k < length ?ns \<or> n_users ?nd \<noteq> [] \<or> n_erased ?nd")
    case True
    then have "g' = g \<and> (r = Inr u \<longrightarrow> k < length ?ns \<and> n_erased ?nd)"
      using assms by (auto simp: fx_erase_node_def split: if_splits)
    then show ?thesis using early by blast
  next
    case False
    then have c: "k < length ?ns" "n_users ?nd = []" "\<not> n_erased ?nd" by auto
    show ?thesis
    proof (cases r2)
      case (Inl e)
      with c u1 assms have "g' = g\<lparr>g_nodes := ns2, g_order := removeAll k (g_order g)\<rparr> \<and> r = Inl e"
        by (simp add: fx_erase_node_def Let_def)
      then show ?thesis using stop c by blast
    next
      case (Inr x)
      with c u1 u2 assms have "g' = g\<lparr>g_nodes := ns3, g_order := removeAll k (g_order g)\<rparr>"
        by (simp add: fx_erase_node_def Let_def)
      then show ?thesis using fin c by blast
    qed
  qed
  note cs = this
  show "length (g_nodes g') = length (g_nodes g)"
    by (rule cs) (simp_all add: l2 l3)
  show "j < length (g_nodes g) \<Longrightarrow> n_op (g_nodes g' ! j) = n_op (g_nodes g ! j)"
    by (rule cs) (simp_all add: f2 f3)
  show "j < length (g_nodes g) \<Longrightarrow> n_target (g_nodes g' ! j) = n_target (g_nodes g ! j)"
    by (rule cs) (simp_all add: f2 f3)
  show "r = Inr u \<Longrightarrow> k < length (g_nodes g) \<and> n_erased (g_nodes g' ! k)"
    by (rule cs) (auto simp: e3)
  show "g_order g' = g_order g \<or> g_order g' = removeAll k (g_order g)"
    by (rule cs) simp_all
qed

section \<open>Properties of the synchronised primitives\<close>

lemma logged_simps [simp]:
  "main_graph (logged i st) = main_graph st"
  "setup_graph (logged i st) = setup_graph st"
  "cleanup_graph (logged i st) = cleanup_graph st"
  "setup_mapping (logged i st) = setup_mapping st"
  "cleanup_mapping (logged i st) = cleanup_mapping st"
  "freeze_flag (logged i st) = freeze_flag st"
  "cross_iter_block_count (logged i st) = cross_iter_block_count st"
  "num_extra_output (logged i st) = num_extra_output st"
  "edit_log (logged i st) = edit_log st @ [i]"
  by (simp_all add: logged_def)

lemma erase_node_mappings:
  "setup_mapping (snd (erase_node n st)) = setup_mapping st"
  "cleanup_mapping (snd (erase_node n st)) = cleanup_mapping st"
  by (simp_all add: erase_node_def Let_def lookup_node_def split: option.splits sum.splits)

text \<open>The unfrozen erase, when it returns: the three underlying calls and their results.\<close>

lemma erase_node_returns:
  assumes nf: "\<not> freeze_flag st" and ok: "fst (erase_node n st) = Inr ()"
  shows "\<exists>s c gs gm gc.
      setup_mapping st n = Some s \<and> cleanup_mapping st n = Some c
    \<and> fx_erase_node s (setup_graph st) = (Inr (), gs)
    \<and> fx_erase_node n (main_graph st) = (Inr (), gm)
    \<and> fx_erase_node c (cleanup_graph st) = (Inr (), gc)
    \<and> snd (erase_node n st) =
        st\<lparr>setup_graph := gs, main_graph := gm, cleanup_graph := gc,
           edit_log := edit_log st @ [Setup, Main, Cleanup]\<rparr>"
proof -
  from nf ok obtain s where s: "setup_mapping st n = Some s"
    by (cases "setup_mapping st n") (auto simp: erase_node_def lookup_node_def)
  obtain rs gs where es: "fx_erase_node s (setup_graph st) = (rs, gs)"
    by (cases "fx_erase_node s (setup_graph st)") auto
  obtain rm gm where em: "fx_erase_node n (main_graph st) = (rm, gm)"
    by (cases "fx_erase_node n (main_graph st)") auto
  from nf ok s es have rs: "rs = Inr ()"
    by (cases rs) (auto simp: erase_node_def lookup_node_def Let_def)
  from nf ok s es rs em have rm: "rm = Inr ()"
    by (cases rm) (auto simp: erase_node_def lookup_node_def Let_def)
  from nf ok s es rs em rm obtain c where c: "cleanup_mapping st n = Some c"
    by (cases "cleanup_mapping st n") (auto simp: erase_node_def lookup_node_def Let_def)
  obtain rc gc where ec: "fx_erase_node c (cleanup_graph st) = (rc, gc)"
    by (cases "fx_erase_node c (cleanup_graph st)") auto
  from nf ok s es rs em rm c ec have rc: "rc = Inr ()"
    by (cases rc) (auto simp: erase_node_def lookup_node_def Let_def)
  have "snd (erase_node n st) =
        st\<lparr>setup_graph := gs, main_graph := gm, cleanup_graph := gc,
           edit_log := edit_log st @ [Setup, Main, Cleanup]\<rparr>"
    using nf s es rs em rm c ec
    by (simp add: erase_node_def lookup_node_def Let_def logged_def)
  with s c es rs em rm ec rc show ?thesis by blast
qed

lemma erase_subgraph_length:
  "erase_subgraph xs erased out new_output g = (r, g') \<Longrightarrow> length (g_nodes g') = length (g_nodes g)"
proof (induction xs arbitrary: erased g)
  case Nil
  then show ?case by simp
next
  case (Cons node rest)
  let ?users0 = "n_users (g_nodes g ! node)"
  let ?users1 = "(if length ?users0 = 1 then
               (let key = ?users0 ! 0
                in if \<not> user_in_tuple key new_output \<and> key = UserNode out then [] else ?users0)
             else ?users0)"
  let ?users2 = "filter (\<lambda>u. \<not> (case u of UserNode m \<Rightarrow> m \<in> set erased | UserMark s \<Rightarrow> False)) ?users1"
  let ?g1 = "g\<lparr>g_nodes := (g_nodes g)[node := (g_nodes g ! node)\<lparr>n_users := ?users2\<rparr>]\<rparr>"
  have l1: "length (g_nodes ?g1) = length (g_nodes g)" by simp
  obtain r2 g2 where e: "fx_erase_node node ?g1 = (r2, g2)"
    by (cases "fx_erase_node node ?g1") auto
  have l2: "length (g_nodes g2) = length (g_nodes g)"
    using fx_erase_node_static(1)[OF e] l1 by simp
  show ?case
  proof (cases "?users2 \<noteq> []")
    case True
    with Cons.prems have "g' = ?g1" by (simp add: Let_def)
    with l1 show ?thesis by simp
  next
    case False
    show ?thesis
    proof (cases r2)
      case (Inl err)
      with False e Cons.prems have "g' = g2" by (simp add: Let_def)
      with l2 show ?thesis by simp
    next
      case (Inr u)
      with False e Cons.prems have "erase_subgraph rest (node # erased) out new_output g2 = (r, g')"
        by (simp add: Let_def)
      from Cons.IH[OF this] l2 show ?thesis by simp
    qed
  qed
qed

lemma fx_output_result:
  "find_output (snd (fx_output AtEnd a g)) = Some (length (g_nodes g))"
  "length (g_nodes (snd (fx_output AtEnd a g))) = Suc (length (g_nodes g))"
  "n_args (g_nodes (snd (fx_output AtEnd a g)) ! length (g_nodes g)) = [a]"
  "n_op (g_nodes (snd (fx_output AtEnd a g)) ! length (g_nodes g)) = Output"
proof -
  have nd: "g_nodes (snd (fx_output AtEnd a g)) ! length (g_nodes g) =
      \<lparr>n_op = Output, n_target = TStr ''output'', n_args = [a], n_kwargs = [], n_users = [],
       n_input_nodes = input_nodes_of [a] [], n_erased = False\<rparr>"
    by (simp add: fx_output_def fx_create_node_nodes nth_append)
  show "find_output (snd (fx_output AtEnd a g)) = Some (length (g_nodes g))"
    using nd by (simp add: find_output_def fx_output_def insert_at_def)
  show "length (g_nodes (snd (fx_output AtEnd a g))) = Suc (length (g_nodes g))"
    by (simp add: fx_output_def)
  show "n_args (g_nodes (snd (fx_output AtEnd a g)) ! length (g_nodes g)) = [a]"
    using nd by simp
  show "n_op (g_nodes (snd (fx_output AtEnd a g)) ! length (g_nodes g)) = Output"
    using nd by simp
qed

lemma forward_subgraph_inputs_returns:
  assumes "forward_subgraph_inputs subgraph g e = (Inr k, g')"
  shows "\<exists>out. find_output g = Some out
      \<and> k = length (subgraph_inputs (g_nodes g) subgraph)
      \<and> length (g_nodes g') = Suc (length (g_nodes g))
      \<and> find_output g' = Some (length (g_nodes g))
      \<and> n_op (g_nodes g' ! length (g_nodes g)) = Output
      \<and> n_args (g_nodes g' ! length (g_nodes g)) =
          [ArgTuple (n_args (g_nodes g ! out) @ map ArgNode (subgraph_inputs (g_nodes g) subgraph))]"
proof -
  from assms obtain out where out: "find_output g = Some out"
    by (cases "find_output g") (auto simp: forward_subgraph_inputs_def)
  let ?inputs = "subgraph_inputs (g_nodes g) subgraph"
  let ?new = "n_args (g_nodes g ! out) @ map ArgNode ?inputs"
  let ?r1 = "(if e then erase_subgraph (rev subgraph) [] out ?new g else (Inr (), g))"
  obtain x1 g1 where r1: "?r1 = (x1, g1)" by (cases ?r1) auto
  have l1: "length (g_nodes g1) = length (g_nodes g)"
  proof (cases e)
    case True
    with r1 have "erase_subgraph (rev subgraph) [] out ?new g = (x1, g1)" by simp
    then show ?thesis by (rule erase_subgraph_length)
  next
    case False
    with r1 show ?thesis by simp
  qed
  obtain x2 g2 where r2: "fx_erase_node out g1 = (x2, g2)" by (cases "fx_erase_node out g1") auto
  have l2: "length (g_nodes g2) = length (g_nodes g)"
    using fx_erase_node_static(1)[OF r2] l1 by simp
  from assms out r1 have x1: "\<exists>u. x1 = Inr u"
    by (cases x1) (auto simp: forward_subgraph_inputs_def Let_def)
  from assms out r1 x1 r2 have x2: "\<exists>u. x2 = Inr u"
    by (cases x2) (auto simp: forward_subgraph_inputs_def Let_def)
  from assms out r1 x1 r2 x2 have res: "k = length ?inputs" "g' = snd (fx_output AtEnd (ArgTuple ?new) g2)"
    by (auto simp: forward_subgraph_inputs_def Let_def)
  show ?thesis using out res fx_output_result[of "ArgTuple ?new" g2] l2 by simp
qed

lemma find_output_in_order: "find_output g = Some out \<Longrightarrow> out \<in> set (g_order g)"
  by (auto simp: find_output_def find_Some_iff) (metis nth_mem set_rev length_rev)

lemma forward_subgraph_inputs_keep_ok:
  assumes wf: "well_formed g" and out: "find_output g = Some out"
    and nu: "n_users (g_nodes g ! out) = []"
  shows "fst (forward_subgraph_inputs subgraph g False) = Inr (length (subgraph_inputs (g_nodes g) subgraph))"
proof -
  have "out \<in> set (g_order g)" using out by (rule find_output_in_order)
  with wf have lt: "out < length (g_nodes g)" by (simp add: well_formed_iff)
  have "\<exists>g2. fx_erase_node out g = (Inr (), g2)"
  proof (cases "n_erased (g_nodes g ! out)")
    case True
    with lt nu show ?thesis by (simp add: fx_erase_node_early)
  next
    case False
    from fx_erase_node_ok[OF wf lt nu False] show ?thesis by blast
  qed
  then obtain g2 where "fx_erase_node out g = (Inr (), g2)" by blast
  with out show ?thesis by (simp add: forward_subgraph_inputs_def Let_def)
qed

lemma move_setup_part_frame:
  assumes "move_setup_part subgraph st = (r, st')"
  shows "main_graph st' = main_graph st" "num_extra_output st' = num_extra_output st"
    "cleanup_graph st' = cleanup_graph st" "cross_iter_block_count st' = cross_iter_block_count st"
    "setup_mapping st' = setup_mapping st" "cleanup_mapping st' = cleanup_mapping st"
  using assms by (auto simp: move_setup_part_def Let_def split: option.splits)

lemma move_setup_part_returns:
  assumes "move_setup_part subgraph st = (Inr k, st')"
  shows "\<exists>setup_subgraph gs.
      those (map (\<lambda>node. lookup_node st node Setup) subgraph) = Some setup_subgraph
    \<and> forward_subgraph_inputs setup_subgraph (setup_graph st) True = (Inr k, gs)"
proof (cases "those (map (\<lambda>node. lookup_node st node Setup) subgraph)")
  case None
  with assms show ?thesis by (simp add: move_setup_part_def)
next
  case (Some ss)
  with assms have "fst (forward_subgraph_inputs ss (setup_graph st) True) = Inr k"
    by (simp add: move_setup_part_def Let_def)
  then have "forward_subgraph_inputs ss (setup_graph st) True =
      (Inr k, snd (forward_subgraph_inputs ss (setup_graph st) True))"
    by (metis prod.collapse)
  with Some show ?thesis by blast
qed

lemma move_cleanup_part_frame:
  assumes "move_cleanup_part subgraph target_node k st = (r, st')"
  shows "main_graph st' = main_graph st" "num_extra_output st' = num_extra_output st"
    "cross_iter_block_count st' = cross_iter_block_count st"
  using assms
  by (auto simp: move_cleanup_part_def Let_def split: option.splits prod.splits sum.splits)

lemma move_main_part_returns:
  assumes "move_main_part subgraph target_node k st = (Inr k', st')"
  shows "k' = k \<and> (\<exists>gm. forward_subgraph_inputs subgraph (main_graph st) False = (Inr k, gm))
       \<and> num_extra_output st' = num_extra_output st"
proof -
  obtain r1 g1 where f: "forward_subgraph_inputs subgraph (main_graph st) False = (r1, g1)"
    by (cases "forward_subgraph_inputs subgraph (main_graph st) False") auto
  from assms f obtain m where r1: "r1 = Inr m"
    by (cases r1) (auto simp: move_main_part_def)
  from assms f r1 have mk: "m = k"
    by (auto simp: move_main_part_def split: if_splits)
  let ?g2 = "fold (\<lambda>node g. fx_prepend target_node node g) subgraph g1"
  obtain r3 g3 where fi: "forward_inputs_to_subgraph subgraph ?g2 m (cross_iter_block_count st) = (r3, g3)"
    by (cases "forward_inputs_to_subgraph subgraph ?g2 m (cross_iter_block_count st)") auto
  from assms f r1 mk fi have "k' = k \<and> num_extra_output st' = num_extra_output st"
    by (cases r3) (auto simp: move_main_part_def Let_def)
  with f r1 mk show ?thesis by blast
qed

lemma lookup_node_eta:
  "(\<lambda>arg. lookup_node st arg Setup) = setup_mapping st"
  "(\<lambda>arg. lookup_node st arg Cleanup) = cleanup_mapping st"
  by (simp_all add: lookup_node_def)

section \<open>The invariant of mirrored edits\<close>

lemma fold_mapping_same:
  "(\<And>t. t \<in> set ts \<Longrightarrow> f t = fst t) \<Longrightarrow>
   fold (\<lambda>t m. m(fst t \<mapsto> f t)) ts m0 k = (if k \<in> fst ` set ts then Some k else m0 k)"
proof (induction ts arbitrary: m0)
  case Nil
  show ?case by simp
next
  case (Cons t ts)
  have ft: "f t = fst t" using Cons.prems by simp
  have ih: "fold (\<lambda>t m. m(fst t \<mapsto> f t)) ts (m0(fst t \<mapsto> f t)) k =
        (if k \<in> fst ` set ts then Some k else (m0(fst t \<mapsto> f t)) k)"
    using Cons.prems by (intro Cons.IH) simp
  have step: "fold (\<lambda>t m. m(fst t \<mapsto> f t)) (t # ts) m0 k =
        fold (\<lambda>t m. m(fst t \<mapsto> f t)) ts (m0(fst t \<mapsto> f t)) k"
    by simp
  show ?case
  proof (cases "k = fst t")
    case True
    then show ?thesis unfolding step ih using ft by simp
  next
    case False
    then show ?thesis unfolding step ih by simp
  qed
qed

lemma triples_same: "zip xs (zip xs xs) = map (\<lambda>x. (x, (x, x))) xs"
  by (induction xs) simp_all

lemma init_mappings:
  "setup_mapping (IterGraph_init g g g) = (\<lambda>k. if k \<in> set (g_order g) then Some k else None)"
  "cleanup_mapping (IterGraph_init g g g) = (\<lambda>k. if k \<in> set (g_order g) then Some k else None)"
proof -
  let ?ts = "map (\<lambda>x. (x, (x, x))) (g_order g)"
  have img: "fst ` set ?ts = set (g_order g)" by (auto simp: image_iff)
  have 1: "fold (\<lambda>t m. m(fst t \<mapsto> fst (snd t))) ?ts Map.empty =
           (\<lambda>k. if k \<in> fst ` set ?ts then Some k else Map.empty k)"
  proof (rule ext)
    fix k show "fold (\<lambda>t m. m(fst t \<mapsto> fst (snd t))) ?ts Map.empty k =
           (if k \<in> fst ` set ?ts then Some k else Map.empty k)"
      by (rule fold_mapping_same) auto
  qed
  have 2: "fold (\<lambda>t m. m(fst t \<mapsto> snd (snd t))) ?ts Map.empty =
           (\<lambda>k. if k \<in> fst ` set ?ts then Some k else Map.empty k)"
  proof (rule ext)
    fix k show "fold (\<lambda>t m. m(fst t \<mapsto> snd (snd t))) ?ts Map.empty k =
           (if k \<in> fst ` set ?ts then Some k else Map.empty k)"
      by (rule fold_mapping_same) auto
  qed
  show "setup_mapping (IterGraph_init g g g) = (\<lambda>k. if k \<in> set (g_order g) then Some k else None)"
    using 1 img by (simp add: IterGraph_init_def triples_same Let_def)
  show "cleanup_mapping (IterGraph_init g g g) = (\<lambda>k. if k \<in> set (g_order g) then Some k else None)"
    using 2 img by (simp add: IterGraph_init_def triples_same Let_def)
qed

lemma in_step_init: "well_formed g \<Longrightarrow> in_step (IterGraph_init g g g)"
  unfolding in_step_def init_mappings
  by (auto simp: IterGraph_init_def Let_def split: if_splits)

lemma map_arg_same:
  "(\<And>n. n \<in> set (leaf_nodes (tree_flatten a)) \<Longrightarrow> f n = Some n) \<Longrightarrow> map_arg f a = a"
proof (induction a rule: tree_flatten.induct)
  case (1 xs)
  have "map (map_arg f) xs = xs"
  proof (rule map_idI)
    fix x assume x: "x \<in> set xs"
    show "map_arg f x = x"
    proof (rule 1(1)[OF x])
      fix n assume "n \<in> set (leaf_nodes (tree_flatten x))"
      then have "n \<in> set (leaf_nodes (tree_flatten (ArgTuple xs)))"
        using x by (induction xs) auto
      then show "f n = Some n" by (rule 1(2))
    qed
  qed
  then show ?case by simp
qed simp_all

lemma leaf_nodes_concat_mem:
  "x \<in> set xss \<Longrightarrow> n \<in> set (leaf_nodes x) \<Longrightarrow> n \<in> set (leaf_nodes (concat xss))"
  by (induction xss) auto

lemma map_args_same:
  assumes "\<And>n. n \<in> set (argument_nodes args kwargs) \<Longrightarrow> f n = Some n"
  shows "map (map_arg f) args = args" and "map_kwargs f kwargs = kwargs"
proof -
  show "map (map_arg f) args = args"
  proof (rule map_idI)
    fix a assume a: "a \<in> set args"
    show "map_arg f a = a"
    proof (rule map_arg_same)
      fix n assume "n \<in> set (leaf_nodes (tree_flatten a))"
      then have "n \<in> set (leaf_nodes (concat (map tree_flatten args)))"
        using a by (intro leaf_nodes_concat_mem[of "tree_flatten a"]) auto
      then show "f n = Some n" using assms by (simp add: argument_nodes_def flatten_args_kwargs_def)
    qed
  qed
  have "map (\<lambda>kv. (fst kv, map_arg f (snd kv))) kwargs = kwargs"
  proof (rule map_idI)
    fix kv assume kv: "kv \<in> set kwargs"
    have "map_arg f (snd kv) = snd kv"
    proof (rule map_arg_same)
      fix n assume "n \<in> set (leaf_nodes (tree_flatten (snd kv)))"
      then have "n \<in> set (leaf_nodes (concat (map (\<lambda>kv. tree_flatten (snd kv)) kwargs)))"
        using kv by (intro leaf_nodes_concat_mem[of "tree_flatten (snd kv)"]) auto
      then show "f n = Some n" using assms by (simp add: argument_nodes_def flatten_args_kwargs_def)
    qed
    then show "(fst kv, map_arg f (snd kv)) = kv" by simp
  qed
  then show "map_kwargs f kwargs = kwargs" by (simp add: map_kwargs_def)
qed

lemma input_nodes_of_set: "set (input_nodes_of a k) = set (argument_nodes a k)"
  by (simp add: input_nodes_of_def argument_nodes_def)

lemma in_step_call_function:
  assumes inv: "in_step st"
    and args: "set (argument_nodes args kwargs) \<subseteq> set (g_order (main_graph st))"
  shows "in_step (snd (call_function the_function args kwargs st))"
proof -
  let ?M = "main_graph st"
  let ?N = "length (g_nodes ?M)"
  from inv have S: "setup_graph st = ?M" and C: "cleanup_graph st = ?M"
    and wf: "well_formed ?M" and km: "cleanup_mapping st = setup_mapping st"
    and idm: "\<And>n s. setup_mapping st n = Some s \<Longrightarrow> s = n"
    and dom: "set (g_order ?M) \<subseteq> dom (setup_mapping st)"
    and nf: "\<not> freeze_flag st"
    by (auto simp: in_step_def)
  have same: "setup_mapping st n = Some n" if "n \<in> set (argument_nodes args kwargs)" for n
  proof -
    from that args dom obtain s where "setup_mapping st n = Some s" by blast
    with idm show ?thesis by blast
  qed
  have ls: "(\<lambda>arg. lookup_node st arg Setup) = setup_mapping st"
    and lc: "(\<lambda>arg. lookup_node st arg Cleanup) = setup_mapping st"
    using km by (simp_all add: lookup_node_def fun_eq_iff)
  have a1: "map (map_arg (setup_mapping st)) args = args"
    and k1: "map_kwargs (setup_mapping st) kwargs = kwargs"
    using map_args_same[of args kwargs "setup_mapping st"] same by simp_all
  let ?r = "fx_call_function AtEnd (TFun the_function) args kwargs ?M"
  have res: "snd (call_function the_function args kwargs st) =
      st\<lparr>setup_graph := snd ?r, main_graph := snd ?r, cleanup_graph := snd ?r,
         edit_log := edit_log st @ [Setup, Main, Cleanup],
         setup_mapping := (setup_mapping st)(?N \<mapsto> ?N),
         cleanup_mapping := (setup_mapping st)(?N \<mapsto> ?N)\<rparr>"
    using nf S C km
    by (simp add: call_function_def Let_def ls lc a1 k1 logged_def fx_call_function_def)
  have inp: "\<forall>i \<in> set (input_nodes_of args kwargs). i < ?N"
    using args wf by (auto simp: input_nodes_of_set well_formed_iff)
  have wf': "well_formed (snd ?r)"
    unfolding fx_call_function_def using wf inp by (rule fx_create_node_well_formed)
  have ord: "g_order (snd ?r) = g_order ?M @ [?N]"
    by (simp add: fx_call_function_def insert_at_def)
  show ?thesis
    unfolding in_step_def res using wf' ord dom idm nf by (auto split: if_splits)
qed

lemma in_step_placeholder:
  assumes inv: "in_step st"
  shows "in_step (snd (placeholder name st))"
proof -
  let ?M = "main_graph st"
  let ?N = "length (g_nodes ?M)"
  from inv have S: "setup_graph st = ?M" and C: "cleanup_graph st = ?M"
    and wf: "well_formed ?M" and km: "cleanup_mapping st = setup_mapping st"
    and idm: "\<And>n s. setup_mapping st n = Some s \<Longrightarrow> s = n"
    and dom: "set (g_order ?M) \<subseteq> dom (setup_mapping st)"
    and nf: "\<not> freeze_flag st"
    by (auto simp: in_step_def)
  let ?r = "fx_placeholder AtEnd name ?M"
  have res: "snd (placeholder name st) =
      st\<lparr>main_graph := snd ?r, setup_graph := snd ?r, cleanup_graph := snd ?r,
         edit_log := edit_log st @ [Main, Setup, Cleanup],
         setup_mapping := (setup_mapping st)(?N \<mapsto> ?N),
         cleanup_mapping := (setup_mapping st)(?N \<mapsto> ?N)\<rparr>"
    using nf S C km
    by (simp add: placeholder_def Let_def logged_def fx_placeholder_def)
  have inp: "\<forall>i \<in> set (input_nodes_of [] []). i < ?N"
    by (simp add: input_nodes_of_def flatten_args_kwargs_def)
  have wf': "well_formed (snd ?r)"
    unfolding fx_placeholder_def using wf inp by (rule fx_create_node_well_formed)
  have ord: "g_order (snd ?r) = g_order ?M @ [?N]"
    by (simp add: fx_placeholder_def insert_at_def)
  show ?thesis
    unfolding in_step_def res using wf' ord dom idm nf by (auto split: if_splits)
qed

lemma in_step_erase_node:
  assumes inv: "in_step st"
  shows "in_step (snd (erase_node n st))"
proof -
  let ?M = "main_graph st"
  from inv have S: "setup_graph st = ?M" and C: "cleanup_graph st = ?M"
    and wf: "well_formed ?M" and km: "cleanup_mapping st = setup_mapping st"
    and idm: "\<And>n s. setup_mapping st n = Some s \<Longrightarrow> s = n"
    and dom: "set (g_order ?M) \<subseteq> dom (setup_mapping st)"
    and nf: "\<not> freeze_flag st"
    by (auto simp: in_step_def)
  show ?thesis
  proof (cases "setup_mapping st n")
    case None
    with nf have "snd (erase_node n st) = st" by (simp add: erase_node_def lookup_node_def)
    with inv show ?thesis by simp
  next
    case (Some s)
    with idm have sn: "s = n" by blast
    obtain r M' where e: "fx_erase_node n ?M = (r, M')" by (cases "fx_erase_node n ?M") auto
    from fx_erase_node_cases[OF wf, of n] e
    have alt: "r = Inr () \<or> M' = ?M" and wf': "well_formed M'" by auto
    have ord: "set (g_order M') \<subseteq> set (g_order ?M)"
      using fx_erase_node_static(5)[OF e] by auto
    show ?thesis
    proof (cases r)
      case (Inl err)
      with alt have M': "M' = ?M" by simp
      have "snd (erase_node n st) = logged Setup (st\<lparr>setup_graph := ?M\<rparr>)"
        using nf Some sn S e Inl M' by (simp add: erase_node_def lookup_node_def Let_def)
      then show ?thesis using inv S by (simp add: in_step_def)
    next
      case (Inr u)
      have "snd (erase_node n st) =
        logged Cleanup (logged Main (logged Setup (st\<lparr>setup_graph := M'\<rparr>)
           \<lparr>main_graph := M'\<rparr>)\<lparr>cleanup_graph := M'\<rparr>)"
        using nf Some sn S C km e Inr by (simp add: erase_node_def lookup_node_def Let_def)
      then show ?thesis using wf' ord dom idm nf km by (auto simp: in_step_def)
    qed
  qed
qed

lemma reachable_in_step:
  assumes "well_formed g" and "reachable g st"
  shows "in_step st"
  using assms(2)
proof (induction rule: reachable.induct)
  case fresh
  show ?case using assms(1) by (rule in_step_init)
next
  case (create st args kwargs the_function)
  then show ?case by (simp add: in_step_call_function)
next
  case (input st name)
  then show ?case by (simp add: in_step_placeholder)
next
  case (erase st to_erase)
  then show ?case by (simp add: in_step_erase_node)
qed

lemma ex_reachable: "reachable ex_graph ex_edited"
  unfolding ex_edited_def
proof (intro reachable.erase reachable.input reachable.create)
  show "reachable ex_graph ex_engine" unfolding ex_engine_def by (rule reachable.fresh)
  show "set (argument_nodes [ArgNode 2, ArgInt 3] []) \<subseteq> set (g_order (main_graph ex_engine))"
    by code_simp
qed

section \<open>Properties of the dispatcher\<close>

lemma run_fields:
  "m_iter (snd (run exec hl g a k m)) = m_iter m"
  "m_max_iters (snd (run exec hl g a k m)) = m_max_iters m"
  "m_num_extra_output (snd (run exec hl g a k m)) = m_num_extra_output m"
  by (simp_all add: run_def Let_def split: sum.splits pyval.splits)

lemma forward_fields:
  "m_iter (snd (forward exec hl a k m)) = m_iter m + 1"
  "m_max_iters (snd (forward exec hl a k m)) = m_max_iters m"
  "m_num_extra_output (snd (forward exec hl a k m)) = m_num_extra_output m"
  by (simp_all add: forward_def Let_def run_fields)

text \<open>What one call of \<open>forward\<close> does, in terms of the executor.\<close>

lemma forward_explicit:
  "forward exec has_len args kwargs m =
     (let m1 = m\<lparr>m_iter := m_iter m + 1\<rparr>; g = select_gm m1; k = m_num_extra_output m in
      if k = 0 then
        (case exec g args kwargs of
           Inl e \<Rightarrow> ((g, Inl e), m1)
         | Inr out \<Rightarrow> ((g, log_output has_len out), m1))
      else if kwargs \<noteq> [] then ((g, Inl AssertionError), m1)
      else
        (case exec g (args @ m_previous_output m) [] of
           Inl e \<Rightarrow> ((g, Inl e), m1)
         | Inr raw \<Rightarrow>
             (if m_iter m1 < m_max_iters m1 then
                (case raw of
                   VOther v \<Rightarrow> ((g, Inl AssertionError), m1)
                 | VTuple out \<Rightarrow>
                     if k < length out then
                       ((g, log_output has_len
                              (if length out - k = 1 then out ! 0
                               else VTuple (take (length out - k) out))),
                        m1\<lparr>m_previous_output := drop (length out - k) out\<rparr>)
                     else ((g, Inl AssertionError), m1))
              else ((g, log_output has_len raw), m1))))"
proof (cases "m_num_extra_output m = 0")
  case True
  then show ?thesis by (simp add: forward_def run_def Let_def split: sum.splits)
next
  case k: False
  show ?thesis
  proof (cases "kwargs = []")
    case False
    with k show ?thesis by (simp add: forward_def run_def Let_def)
  next
    case kw: True
    let ?g = "select_gm (m\<lparr>m_iter := m_iter m + 1\<rparr>)"
    show ?thesis
    proof (cases "exec ?g (args @ m_previous_output m) []")
      case (Inl e)
      with k kw show ?thesis by (simp add: forward_def run_def Let_def)
    next
      case (Inr raw)
      show ?thesis
      proof (cases raw)
        case (VOther v)
        with k kw Inr show ?thesis by (simp add: forward_def run_def Let_def)
      next
        case (VTuple out)
        have n: "nat (int (length out) - int (m_num_extra_output m)) = length out - m_num_extra_output m"
          by simp
        show ?thesis
        proof (cases "m_num_extra_output m < length out")
          case True
          with k kw Inr VTuple show ?thesis
            by (simp add: forward_def run_def Let_def n min_def)
        next
          case False
          with k kw Inr VTuple show ?thesis
            by (simp add: forward_def run_def Let_def)
        qed
      qed
    qed
  qed
qed

lemma forward_calls_length [simp]: "length (fst (forward_calls exec hl cs m)) = length cs"
  by (induction cs arbitrary: m) (simp_all add: Let_def)

lemma forward_calls_fields:
  "m_iter (snd (forward_calls exec hl cs m)) = m_iter m + int (length cs)"
  "m_max_iters (snd (forward_calls exec hl cs m)) = m_max_iters m"
  "m_num_extra_output (snd (forward_calls exec hl cs m)) = m_num_extra_output m"
  by (induction cs arbitrary: m) (simp_all add: Let_def forward_fields)

lemma forward_calls_nth:
  "j < length cs \<Longrightarrow>
   fst (forward_calls exec hl cs m) ! j =
     fst (forward exec hl (fst (cs ! j)) (snd (cs ! j)) (snd (forward_calls exec hl (take j cs) m)))"
proof (induction cs arbitrary: m j)
  case Nil
  then show ?case by simp
next
  case (Cons c cs)
  show ?case
  proof (cases j)
    case 0
    then show ?thesis by (simp add: Let_def)
  next
    case (Suc j')
    with Cons.prems have "j' < length cs" by simp
    from Cons.IH[OF this, of "snd (forward exec hl (fst c) (snd c) m)"] Suc
    show ?thesis by (simp add: Let_def)
  qed
qed

lemma nth_call:
  assumes it: "m_iter m = 0" and mx: "m_max_iters m = N" and i: "1 \<le> i" "i \<le> length cs"
  shows "forward exec has_len (fst (cs ! (i - 1))) (snd (cs ! (i - 1)))
           (snd (forward_calls exec has_len (take (i - 1) cs) m)) =
     (let mi = snd (forward_calls exec has_len (take (i - 1) cs) m);
          args = fst (cs ! (i - 1)); kwargs = snd (cs ! (i - 1));
          g = (if i = 1 then Setup else if int i = N then Cleanup else Main);
          m1 = mi\<lparr>m_iter := int i\<rparr>; k = m_num_extra_output m in
      if k = 0 then
        (case exec g args kwargs of
           Inl e \<Rightarrow> ((g, Inl e), m1)
         | Inr out \<Rightarrow> ((g, log_output has_len out), m1))
      else if kwargs \<noteq> [] then ((g, Inl AssertionError), m1)
      else
        (case exec g (args @ m_previous_output mi) [] of
           Inl e \<Rightarrow> ((g, Inl e), m1)
         | Inr raw \<Rightarrow>
             (if int i < N then
                (case raw of
                   VOther v \<Rightarrow> ((g, Inl AssertionError), m1)
                 | VTuple out \<Rightarrow>
                     if k < length out then
                       ((g, log_output has_len
                              (if length out - k = 1 then out ! 0
                               else VTuple (take (length out - k) out))),
                        m1\<lparr>m_previous_output := drop (length out - k) out\<rparr>)
                     else ((g, Inl AssertionError), m1))
              else ((g, log_output has_len raw), m1))))"
proof -
  let ?mi = "snd (forward_calls exec has_len (take (i - 1) cs) m)"
  have len: "length (take (i - 1) cs) = i - 1" using i by simp
  have f1: "m_iter ?mi = int i - 1"
    using forward_calls_fields(1)[of exec has_len "take (i - 1) cs" m] it len i by simp
  have f2: "m_max_iters ?mi = N"
    using forward_calls_fields(2)[of exec has_len "take (i - 1) cs" m] mx by simp
  have f3: "m_num_extra_output ?mi = m_num_extra_output m"
    by (rule forward_calls_fields(3))
  have up: "?mi\<lparr>m_iter := m_iter ?mi + 1\<rparr> = ?mi\<lparr>m_iter := int i\<rparr>" using f1 by simp
  have i1: "(int i = 1) = (i = 1)" by auto
  have sel: "select_gm (?mi\<lparr>m_iter := int i\<rparr>) =
      (if i = 1 then Setup else if int i = N then Cleanup else Main)"
    using f2 by (simp add: select_gm_def i1)
  have it1: "m_iter (?mi\<lparr>m_iter := int i\<rparr>) = int i"
    and mx1: "m_max_iters (?mi\<lparr>m_iter := int i\<rparr>) = N"
    using f2 by simp_all
  show ?thesis
    unfolding forward_explicit[of exec has_len "fst (cs ! (i - 1))" "snd (cs ! (i - 1))" ?mi]
    unfolding Let_def up sel it1 mx1 f3
    by (rule refl)
qed

text \<open>Without boundary values: the whole result of the j-th call (from 0).\<close>

lemma plain_call:
  assumes it: "m_iter m = 0" and mx: "m_max_iters m = N" and k: "m_num_extra_output m = 0"
    and j: "j < length cs"
  shows "fst (forward_calls exec has_len cs m) ! j =
     (let g = (if j = 0 then Setup else if int j + 1 = N then Cleanup else Main)
      in (g, case exec g (fst (cs ! j)) (snd (cs ! j)) of
               Inl e \<Rightarrow> Inl e
             | Inr out \<Rightarrow> log_output has_len out))"
proof -
  have i: "1 \<le> Suc j" "Suc j \<le> length cs" using j by simp_all
  have a: "fst (forward_calls exec has_len cs m) ! j =
      fst (forward exec has_len (fst (cs ! j)) (snd (cs ! j))
             (snd (forward_calls exec has_len (take j cs) m)))"
    using j by (rule forward_calls_nth)
  have e: "int (Suc j) = int j + 1" by simp
  show ?thesis
    unfolding a using nth_call[OF it mx i, of exec has_len] k
    by (simp add: Let_def e split: sum.splits)
qed


lemma call_tag:
  assumes it: "m_iter m = 0" and mx: "m_max_iters m = N" and j: "j < length cs"
  shows "fst (fst (forward_calls exec has_len cs m) ! j) =
      (if j = 0 then Setup else if int j + 1 = N then Cleanup else Main)"
proof -
  have "fst (forward_calls exec has_len cs m) ! j =
      fst (forward exec has_len (fst (cs ! j)) (snd (cs ! j))
             (snd (forward_calls exec has_len (take j cs) m)))"
    using j by (rule forward_calls_nth)
  moreover have "m_iter (snd (forward_calls exec has_len (take j cs) m)) = int j"
    using forward_calls_fields(1)[of exec has_len "take j cs" m] it j by simp
  moreover have "m_max_iters (snd (forward_calls exec has_len (take j cs) m)) = N"
    using forward_calls_fields(2)[of exec has_len "take j cs" m] mx by simp
  ultimately show ?thesis by (simp add: forward_def Let_def select_gm_def)
qed

lemma plain_calls:
  assumes it: "m_iter m = 0" and mx: "m_max_iters m = int (length cs)" and k: "m_num_extra_output m = 0"
    and gs: "length gs = length cs"
      "\<And>j. j < length cs \<Longrightarrow> gs ! j = (if j = 0 then Setup else if Suc j = length cs then Cleanup else Main)"
  shows "fst (forward_calls exec has_len cs m) =
     map (\<lambda>p. (fst p, case exec (fst p) (fst (snd p)) (snd (snd p)) of
                         Inl e \<Rightarrow> Inl e
                       | Inr out \<Rightarrow> log_output has_len out))
       (zip gs cs)"
proof (rule nth_equalityI)
  show "length (fst (forward_calls exec has_len cs m)) =
        length (map (\<lambda>p. (fst p, case exec (fst p) (fst (snd p)) (snd (snd p)) of
                         Inl e \<Rightarrow> Inl e
                       | Inr out \<Rightarrow> log_output has_len out))
       (zip gs cs))"
    using gs(1) by simp
next
  fix j assume "j < length (fst (forward_calls exec has_len cs m))"
  then have j: "j < length cs" by simp
  have e: "(int j + 1 = int (length cs)) = (Suc j = length cs)" by auto
  have z: "zip gs cs ! j = (gs ! j, cs ! j)" using j gs(1) by simp
  have jz: "j < length (zip gs cs)" using j gs(1) by simp
  show "fst (forward_calls exec has_len cs m) ! j =
        map (\<lambda>p. (fst p, case exec (fst p) (fst (snd p)) (snd (snd p)) of
                         Inl e \<Rightarrow> Inl e
                       | Inr out \<Rightarrow> log_output has_len out))
       (zip gs cs) ! j"
    unfolding plain_call[OF it mx k j, of exec has_len] nth_map[OF jz] z Let_def e
    using gs(2)[OF j] by simp
qed

text \<open>
  Claim C1 (structural correspondence). Start from the engine freshly constructed on
  three copies of a well-formed graph and apply any sequence of \<open>call_function\<close>,
  \<open>placeholder\<close> and \<open>erase_node\<close>, the created nodes taking their node arguments among
  the nodes of the steady graph. Then every node of the steady graph has a counterpart
  recorded in the setup mapping and one in the cleanup mapping, each a node of its
  graph; distinct nodes have distinct counterparts; the node lists of the setup and of
  the cleanup graph are the node list of the steady graph mapped node by node; and the
  three graphs have the same number of nodes.
\<close>

theorem structural_correspondence:
  assumes "well_formed g" and "reachable g st"
  shows "(\<forall>n \<in> set (g_order (main_graph st)).
            \<exists>s c. setup_mapping st n = Some s \<and> s \<in> set (g_order (setup_graph st))
                \<and> cleanup_mapping st n = Some c \<and> c \<in> set (g_order (cleanup_graph st)))
       \<and> inj_on (setup_mapping st) (set (g_order (main_graph st)))
       \<and> inj_on (cleanup_mapping st) (set (g_order (main_graph st)))
       \<and> map (setup_mapping st) (g_order (main_graph st)) = map Some (g_order (setup_graph st))
       \<and> map (cleanup_mapping st) (g_order (main_graph st)) = map Some (g_order (cleanup_graph st))
       \<and> distinct (g_order (main_graph st))
       \<and> distinct (g_order (setup_graph st))
       \<and> distinct (g_order (cleanup_graph st))
       \<and> length (g_order (setup_graph st)) = length (g_order (main_graph st))
       \<and> length (g_order (cleanup_graph st)) = length (g_order (main_graph st))"
proof -
  let ?M = "main_graph st"
  from reachable_in_step[OF assms] have S: "setup_graph st = ?M" and C: "cleanup_graph st = ?M"
    and wf: "well_formed ?M" and km: "cleanup_mapping st = setup_mapping st"
    and idm: "\<And>n s. setup_mapping st n = Some s \<Longrightarrow> s = n"
    and dom: "set (g_order ?M) \<subseteq> dom (setup_mapping st)"
    by (auto simp: in_step_def)
  have same: "setup_mapping st n = Some n" if "n \<in> set (g_order ?M)" for n
  proof -
    from that dom obtain s where "setup_mapping st n = Some s" by blast
    with idm show ?thesis by blast
  qed
  have d: "distinct (g_order ?M)" using wf by (simp add: well_formed_iff)
  have A: "\<forall>n \<in> set (g_order ?M).
            \<exists>s c. setup_mapping st n = Some s \<and> s \<in> set (g_order (setup_graph st))
                \<and> cleanup_mapping st n = Some c \<and> c \<in> set (g_order (cleanup_graph st))"
    using same S C km by auto
  have B: "inj_on (setup_mapping st) (set (g_order ?M))"
    by (rule inj_onI) (simp add: same)
  have D: "map (setup_mapping st) (g_order ?M) = map Some (g_order ?M)"
    by (rule map_cong) (simp_all add: same)
  from A B D d S C km show ?thesis by simp
qed

theorem structural_correspondence_witness:
  "well_formed ex_graph \<and> reachable ex_graph ex_edited
   \<and> g_order (main_graph ex_edited) = [0, 2, 3, 4, 5]
   \<and> map (setup_mapping ex_edited) (g_order (main_graph ex_edited)) = map Some (g_order (setup_graph ex_edited))
   \<and> map (cleanup_mapping ex_edited) (g_order (main_graph ex_edited)) = map Some (g_order (cleanup_graph ex_edited))
   \<and> length (g_order (setup_graph ex_edited)) = length (g_order (main_graph ex_edited))
   \<and> length (g_order (cleanup_graph ex_edited)) = length (g_order (main_graph ex_edited))"
proof -
  have h1: "well_formed ex_graph" by code_simp
  have h2: "reachable ex_graph ex_edited" by (rule ex_reachable)
  have h3: "g_order (main_graph ex_edited) = [0, 2, 3, 4, 5]" by code_simp
  from structural_correspondence[OF h1 h2] h1 h2 h3 show ?thesis by blast
qed

text \<open>
  Claim C2 (mirroring order), as stated, fails: no one of the four primitives edits the
  setup graph, then the cleanup graph, then the steady graph. On the example engine
  \<open>call_function\<close> and \<open>erase_node\<close> call the setup, the steady, then the cleanup graph,
  and \<open>placeholder\<close> and \<open>output\<close> the steady, the setup, then the cleanup graph. The
  graphs show it too: on the engine whose steady graph alone has a user of node 1, the
  erasure of node 1 is refused by the steady graph when the setup graph has already lost
  the node and the cleanup graph still has it.
\<close>

theorem mirroring_order_counterexample:
  "edit_log (snd (call_function ''f'' [ArgNode 1] [] ex_engine)) = [Setup, Main, Cleanup]
   \<and> edit_log (snd (call_function ''f'' [ArgNode 1] [] ex_engine)) \<noteq> [Setup, Cleanup, Main]
   \<and> edit_log (snd (placeholder ''p'' ex_engine)) = [Main, Setup, Cleanup]
   \<and> edit_log (snd (iter_output (ArgNode 2) ex_engine)) = [Main, Setup, Cleanup]
   \<and> fst (erase_node 1 ex_engine) = Inr ()
   \<and> edit_log (snd (erase_node 1 ex_engine)) = [Setup, Main, Cleanup]
   \<and> fst (erase_node 1 ex_skewed) = Inl RuntimeError
   \<and> 1 \<notin> set (g_order (setup_graph (snd (erase_node 1 ex_skewed))))
   \<and> 1 \<in> set (g_order (main_graph (snd (erase_node 1 ex_skewed))))
   \<and> 1 \<in> set (g_order (cleanup_graph (snd (erase_node 1 ex_skewed))))"
  by code_simp

text \<open>
  Claim C2, amended. Without the freeze, \<open>call_function\<close> creates the node in the setup
  graph, then in the steady graph, then in the cleanup graph, with the arguments
  translated through the two mappings, and records the new correspondence;
  \<open>placeholder\<close> and \<open>output\<close> create their node in the steady graph first, then in the
  setup graph, then in the cleanup graph. \<open>erase_node\<close> erases in the setup graph, then
  in the steady graph, then in the cleanup graph: an erasure refused by the setup graph
  leaves the two other graphs untouched, and one refused by the steady graph leaves the
  setup graph edited and the cleanup graph untouched.
\<close>

theorem mirroring_order:
  assumes "\<not> freeze_flag st"
  shows "call_function the_function args kwargs st =
          (length (g_nodes (main_graph st)),
           st\<lparr>setup_graph :=
                 snd (fx_call_function AtEnd (TFun the_function)
                        (map (map_arg (setup_mapping st)) args)
                        (map_kwargs (setup_mapping st) kwargs) (setup_graph st)),
              main_graph :=
                 snd (fx_call_function AtEnd (TFun the_function) args kwargs (main_graph st)),
              cleanup_graph :=
                 snd (fx_call_function AtEnd (TFun the_function)
                        (map (map_arg (cleanup_mapping st)) args)
                        (map_kwargs (cleanup_mapping st) kwargs) (cleanup_graph st)),
              setup_mapping :=
                 (setup_mapping st)(length (g_nodes (main_graph st)) \<mapsto> length (g_nodes (setup_graph st))),
              cleanup_mapping :=
                 (cleanup_mapping st)(length (g_nodes (main_graph st)) \<mapsto> length (g_nodes (cleanup_graph st))),
              edit_log := edit_log st @ [Setup, Main, Cleanup]\<rparr>)
       \<and> placeholder name st =
          (None,
           st\<lparr>main_graph := snd (fx_placeholder AtEnd name (main_graph st)),
              setup_graph := snd (fx_placeholder AtEnd name (setup_graph st)),
              cleanup_graph := snd (fx_placeholder AtEnd name (cleanup_graph st)),
              setup_mapping :=
                 (setup_mapping st)(length (g_nodes (main_graph st)) \<mapsto> length (g_nodes (setup_graph st))),
              cleanup_mapping :=
                 (cleanup_mapping st)(length (g_nodes (main_graph st)) \<mapsto> length (g_nodes (cleanup_graph st))),
              edit_log := edit_log st @ [Main, Setup, Cleanup]\<rparr>)
       \<and> iter_output result st =
          (Inr (length (g_nodes (main_graph st))),
           st\<lparr>main_graph := snd (fx_output AtEnd result (main_graph st)),
              setup_graph := snd (fx_output AtEnd (map_arg (setup_mapping st) result) (setup_graph st)),
              cleanup_graph := snd (fx_output AtEnd (map_arg (cleanup_mapping st) result) (cleanup_graph st)),
              edit_log := edit_log st @ [Main, Setup, Cleanup]\<rparr>)
       \<and> (setup_mapping st to_erase = Some s \<and> fx_erase_node s (setup_graph st) = (Inl e, gs) \<longrightarrow>
            erase_node to_erase st =
              (Inl e, st\<lparr>setup_graph := gs, edit_log := edit_log st @ [Setup]\<rparr>))
       \<and> (setup_mapping st to_erase = Some s \<and> fx_erase_node s (setup_graph st) = (Inr (), gs)
            \<and> fx_erase_node to_erase (main_graph st) = (Inl e, gm) \<longrightarrow>
            erase_node to_erase st =
              (Inl e, st\<lparr>setup_graph := gs, main_graph := gm, edit_log := edit_log st @ [Setup, Main]\<rparr>))
       \<and> (setup_mapping st to_erase = Some s \<and> fx_erase_node s (setup_graph st) = (Inr (), gs)
            \<and> fx_erase_node to_erase (main_graph st) = (Inr (), gm)
            \<and> cleanup_mapping st to_erase = Some c \<and> fx_erase_node c (cleanup_graph st) = (rc, gc) \<longrightarrow>
            erase_node to_erase st =
              (rc, st\<lparr>setup_graph := gs, main_graph := gm, cleanup_graph := gc,
                     edit_log := edit_log st @ [Setup, Main, Cleanup]\<rparr>))"
    (is "?A \<and> ?B \<and> ?C \<and> ?D \<and> ?E \<and> ?F")
proof -
  have A: ?A using assms
    by (simp add: call_function_def Let_def logged_def lookup_node_eta fx_call_function_def)
  have B: ?B using assms
    by (simp add: placeholder_def Let_def logged_def fx_placeholder_def)
  have C: ?C using assms
    by (simp add: iter_output_def Let_def logged_def lookup_node_eta fx_output_def)
  have D: ?D using assms
    by (simp add: erase_node_def Let_def logged_def lookup_node_def)
  have E: ?E using assms
    by (simp add: erase_node_def Let_def logged_def lookup_node_def)
  have F: ?F using assms
    by (simp add: erase_node_def Let_def logged_def lookup_node_def)
  show ?thesis by (rule conjI[OF A conjI[OF B conjI[OF C conjI[OF D conjI[OF E F]]]]])
qed

theorem mirroring_order_witness:
  "\<not> freeze_flag ex_engine
   \<and> call_function ''f'' [ArgNode 1] [] ex_engine =
       (length (g_nodes (main_graph ex_engine)),
        ex_engine\<lparr>setup_graph :=
                 snd (fx_call_function AtEnd (TFun ''f'')
                        (map (map_arg (setup_mapping ex_engine)) [ArgNode 1])
                        (map_kwargs (setup_mapping ex_engine) []) (setup_graph ex_engine)),
              main_graph :=
                 snd (fx_call_function AtEnd (TFun ''f'') [ArgNode 1] [] (main_graph ex_engine)),
              cleanup_graph :=
                 snd (fx_call_function AtEnd (TFun ''f'')
                        (map (map_arg (cleanup_mapping ex_engine)) [ArgNode 1])
                        (map_kwargs (cleanup_mapping ex_engine) []) (cleanup_graph ex_engine)),
              setup_mapping :=
                 (setup_mapping ex_engine)(length (g_nodes (main_graph ex_engine)) \<mapsto>
                    length (g_nodes (setup_graph ex_engine))),
              cleanup_mapping :=
                 (cleanup_mapping ex_engine)(length (g_nodes (main_graph ex_engine)) \<mapsto>
                    length (g_nodes (cleanup_graph ex_engine))),
              edit_log := edit_log ex_engine @ [Setup, Main, Cleanup]\<rparr>)
   \<and> setup_mapping ex_engine 0 = Some 0
   \<and> fx_erase_node 0 (setup_graph ex_engine) = (Inl RuntimeError, setup_graph ex_engine)
   \<and> erase_node 0 ex_engine =
       (Inl RuntimeError,
        ex_engine\<lparr>setup_graph := setup_graph ex_engine, edit_log := edit_log ex_engine @ [Setup]\<rparr>)
   \<and> setup_mapping ex_skewed 1 = Some 1
   \<and> fst (fx_erase_node 1 (setup_graph ex_skewed)) = Inr ()
   \<and> fx_erase_node 1 (main_graph ex_skewed) = (Inl RuntimeError, main_graph ex_skewed)
   \<and> erase_node 1 ex_skewed =
       (Inl RuntimeError,
        ex_skewed\<lparr>setup_graph := snd (fx_erase_node 1 (setup_graph ex_skewed)),
                  main_graph := main_graph ex_skewed,
                  edit_log := edit_log ex_skewed @ [Setup, Main]\<rparr>)
   \<and> setup_mapping ex_engine 1 = Some 1 \<and> cleanup_mapping ex_engine 1 = Some 1
   \<and> fst (fx_erase_node 1 (setup_graph ex_engine)) = Inr ()
   \<and> fst (fx_erase_node 1 (main_graph ex_engine)) = Inr ()
   \<and> fst (fx_erase_node 1 (cleanup_graph ex_engine)) = Inr ()
   \<and> erase_node 1 ex_engine =
       (Inr (),
        ex_engine\<lparr>setup_graph := snd (fx_erase_node 1 (setup_graph ex_engine)),
                  main_graph := snd (fx_erase_node 1 (main_graph ex_engine)),
                  cleanup_graph := snd (fx_erase_node 1 (cleanup_graph ex_engine)),
                  edit_log := edit_log ex_engine @ [Setup, Main, Cleanup]\<rparr>)"
proof -
  have nf: "\<not> freeze_flag ex_engine" by code_simp
  have nfs: "\<not> freeze_flag ex_skewed" by code_simp
  note a = mirroring_order[OF nf, where the_function = "''f''" and args = "[ArgNode 1]"
      and kwargs = "[]", THEN conjunct1]
  have s0: "setup_mapping ex_engine 0 = Some 0" by code_simp
  have e0: "fx_erase_node 0 (setup_graph ex_engine) = (Inl RuntimeError, setup_graph ex_engine)"
    by code_simp
  note d = mirroring_order[OF nf, where to_erase = 0 and s = 0 and e = RuntimeError
      and gs = "setup_graph ex_engine",
      THEN conjunct2, THEN conjunct2, THEN conjunct2, THEN conjunct1, rule_format, OF conjI[OF s0 e0]]
  have k1: "setup_mapping ex_skewed 1 = Some 1" by code_simp
  have k2: "fst (fx_erase_node 1 (setup_graph ex_skewed)) = Inr ()" by code_simp
  have k2': "fx_erase_node 1 (setup_graph ex_skewed) = (Inr (), snd (fx_erase_node 1 (setup_graph ex_skewed)))"
    using k2 by (metis prod.collapse)
  have k3: "fx_erase_node 1 (main_graph ex_skewed) = (Inl RuntimeError, main_graph ex_skewed)"
    by code_simp
  note e = mirroring_order[OF nfs, where to_erase = 1 and s = 1 and e = RuntimeError
      and gs = "snd (fx_erase_node 1 (setup_graph ex_skewed))" and gm = "main_graph ex_skewed",
      THEN conjunct2, THEN conjunct2, THEN conjunct2, THEN conjunct2, THEN conjunct1, rule_format,
      OF conjI[OF k1 conjI[OF k2' k3]]]
  have s1: "setup_mapping ex_engine 1 = Some 1" by code_simp
  have c1: "cleanup_mapping ex_engine 1 = Some 1" by code_simp
  have f1: "fst (fx_erase_node 1 (setup_graph ex_engine)) = Inr ()" by code_simp
  have f2: "fst (fx_erase_node 1 (main_graph ex_engine)) = Inr ()" by code_simp
  have f3: "fst (fx_erase_node 1 (cleanup_graph ex_engine)) = Inr ()" by code_simp
  have f1': "fx_erase_node 1 (setup_graph ex_engine) = (Inr (), snd (fx_erase_node 1 (setup_graph ex_engine)))"
    using f1 by (metis prod.collapse)
  have f2': "fx_erase_node 1 (main_graph ex_engine) = (Inr (), snd (fx_erase_node 1 (main_graph ex_engine)))"
    using f2 by (metis prod.collapse)
  have f3': "fx_erase_node 1 (cleanup_graph ex_engine) = (Inr (), snd (fx_erase_node 1 (cleanup_graph ex_engine)))"
    using f3 by (metis prod.collapse)
  note f = mirroring_order[OF nf, where to_erase = 1 and s = 1 and c = 1 and rc = "Inr ()"
      and gs = "snd (fx_erase_node 1 (setup_graph ex_engine))"
      and gm = "snd (fx_erase_node 1 (main_graph ex_engine))"
      and gc = "snd (fx_erase_node 1 (cleanup_graph ex_engine))",
      THEN conjunct2, THEN conjunct2, THEN conjunct2, THEN conjunct2, THEN conjunct2, rule_format,
      OF conjI[OF s1 conjI[OF f1' conjI[OF f2' conjI[OF c1 f3']]]]]
  show ?thesis
    by (intro conjI nf a s0 e0 d k1 k2 k3 e s1 c1 f1 f2 f3 f)
qed

text \<open>
  Claim C3 (the export computes a deduplicated list of external inputs), as stated,
  fails: \<open>_forward_subgraph_inputs\<close> appends one entry per occurrence. On the example
  graph the block of nodes 1 and 2 consumes the placeholder (node 0) twice; the export
  returns 2 and the new output node carries node 0 twice, where the deduplicated list
  has the single entry 0.
\<close>

theorem export_counterexample:
  "fst (forward_subgraph_inputs [1, 2] ex_graph False) = Inr 2
   \<and> subgraph_inputs (g_nodes ex_graph) [1, 2] = [0, 0]
   \<and> spec_exported_values (g_nodes ex_graph) [1, 2] = [0]
   \<and> n_args (g_nodes (snd (forward_subgraph_inputs [1, 2] ex_graph False)) ! 4) =
       [ArgTuple [ArgTuple [ArgNode 2], ArgNode 0, ArgNode 0]]"
  by code_simp

text \<open>
  Claim C3, amended. The export collects the node-valued inputs consumed by the block
  and produced outside it, one entry per occurrence, in the order of the traversal.
  Whenever it returns, with or without erasing the block, the graph had an output node,
  the count returned is the length of that list, and the graph has a new output node,
  the last of its node list, whose single argument is the tuple of the old output
  node's arguments followed by those values. On a well-formed graph whose output node
  has no users the export that keeps the block does return.
\<close>

theorem export_appends_inputs:
  "(forward_subgraph_inputs subgraph g erase_node_flag = (Inr k, g') \<longrightarrow>
      (\<exists>out. find_output g = Some out
         \<and> k = length (subgraph_inputs (g_nodes g) subgraph)
         \<and> length (g_nodes g') = Suc (length (g_nodes g))
         \<and> find_output g' = Some (length (g_nodes g))
         \<and> n_op (g_nodes g' ! length (g_nodes g)) = Output
         \<and> n_args (g_nodes g' ! length (g_nodes g)) =
             [ArgTuple (n_args (g_nodes g ! out) @ map ArgNode (subgraph_inputs (g_nodes g) subgraph))]))
   \<and> (well_formed g \<and> find_output g = Some out' \<and> n_users (g_nodes g ! out') = [] \<longrightarrow>
        fst (forward_subgraph_inputs subgraph g False) =
          Inr (length (subgraph_inputs (g_nodes g) subgraph)))"
  using forward_subgraph_inputs_returns forward_subgraph_inputs_keep_ok by blast

theorem export_appends_inputs_witness:
  "well_formed ex_graph \<and> find_output ex_graph = Some 3 \<and> n_users (g_nodes ex_graph ! 3) = []
   \<and> fst (forward_subgraph_inputs [1, 2] ex_graph False) = Inr (length (subgraph_inputs (g_nodes ex_graph) [1, 2]))
   \<and> (\<exists>out. find_output ex_graph = Some out
         \<and> length (g_nodes (snd (forward_subgraph_inputs [1, 2] ex_graph False))) = Suc (length (g_nodes ex_graph))
         \<and> find_output (snd (forward_subgraph_inputs [1, 2] ex_graph False)) = Some (length (g_nodes ex_graph))
         \<and> n_args (g_nodes (snd (forward_subgraph_inputs [1, 2] ex_graph False)) ! length (g_nodes ex_graph)) =
             [ArgTuple (n_args (g_nodes ex_graph ! out) @ map ArgNode (subgraph_inputs (g_nodes ex_graph) [1, 2]))])"
proof -
  have h1: "well_formed ex_graph" by code_simp
  have h2: "find_output ex_graph = Some 3" by code_simp
  have h3: "n_users (g_nodes ex_graph ! 3) = []" by code_simp
  have ok: "fst (forward_subgraph_inputs [1, 2] ex_graph False) = Inr (length (subgraph_inputs (g_nodes ex_graph) [1, 2]))"
    using export_appends_inputs[of "[1, 2]" ex_graph False _ _ 3] h1 h2 h3 by blast
  then have eq: "forward_subgraph_inputs [1, 2] ex_graph False =
     (Inr (length (subgraph_inputs (g_nodes ex_graph) [1, 2])), snd (forward_subgraph_inputs [1, 2] ex_graph False))"
    by (metis prod.collapse)
  from export_appends_inputs[of "[1, 2]" ex_graph False
      "length (subgraph_inputs (g_nodes ex_graph) [1, 2])" "snd (forward_subgraph_inputs [1, 2] ex_graph False)" 3] eq
  have "\<exists>out. find_output ex_graph = Some out
         \<and> length (g_nodes (snd (forward_subgraph_inputs [1, 2] ex_graph False))) = Suc (length (g_nodes ex_graph))
         \<and> find_output (snd (forward_subgraph_inputs [1, 2] ex_graph False)) = Some (length (g_nodes ex_graph))
         \<and> n_args (g_nodes (snd (forward_subgraph_inputs [1, 2] ex_graph False)) ! length (g_nodes ex_graph)) =
             [ArgTuple (n_args (g_nodes ex_graph ! out) @ map ArgNode (subgraph_inputs (g_nodes ex_graph) [1, 2]))]"
    by blast
  with h1 h2 h3 ok show ?thesis by blast
qed

text \<open>
  Claim C4 (the freeze restricts the primitives to the steady graph) at two of the
  primitives it names, on the frozen example engine. The argument update raises
  \<open>TypeError\<close> and leaves the arguments of the node as they were. The output rewrite
  calls the placeholder operation: for a result that is not a string an assertion fails
  and the steady graph is unchanged, and for a string a placeholder node is created
  where an output node was asked for.
\<close>

theorem frozen_primitives_diverge:
  "freeze_flag ex_frozen
   \<and> node_update_arg 2 0 (ArgNode 1) ex_frozen = (Inl TypeError, ex_frozen)
   \<and> n_args (g_nodes (main_graph (snd (node_update_arg 2 0 (ArgNode 1) ex_frozen))) ! 2) = [ArgNode 0]
   \<and> fst (iter_output (ArgTuple [ArgNode 2, ArgNode 1]) ex_frozen) = Inl AssertionError
   \<and> main_graph (snd (iter_output (ArgTuple [ArgNode 2, ArgNode 1]) ex_frozen)) = main_graph ex_frozen
   \<and> fst (iter_output (ArgStr ''y'') ex_frozen) = Inr 4
   \<and> n_op (g_nodes (main_graph (snd (iter_output (ArgStr ''y'') ex_frozen))) ! 4) = Placeholder"
proof -
  have f: "freeze_flag ex_frozen" by (simp add: ex_frozen_def freeze_cross_iter_movement_def)
  have 1: "node_update_arg 2 0 (ArgNode 1) ex_frozen = (Inl TypeError, ex_frozen)"
    using f by (simp add: node_update_arg_def)
  have 2: "n_args (g_nodes (main_graph (snd (node_update_arg 2 0 (ArgNode 1) ex_frozen))) ! 2) = [ArgNode 0]"
    by code_simp
  have 3: "fst (iter_output (ArgTuple [ArgNode 2, ArgNode 1]) ex_frozen) = Inl AssertionError"
    using f by (simp add: iter_output_def fx_placeholder_value_def)
  have 4: "main_graph (snd (iter_output (ArgTuple [ArgNode 2, ArgNode 1]) ex_frozen)) = main_graph ex_frozen"
    using f by (simp add: iter_output_def fx_placeholder_value_def)
  have 5: "fst (iter_output (ArgStr ''y'') ex_frozen) = Inr 4" by code_simp
  have 6: "n_op (g_nodes (main_graph (snd (iter_output (ArgStr ''y'') ex_frozen))) ! 4) = Placeholder"
    by code_simp
  from f 1 2 3 4 5 6 show ?thesis by blast
qed

text \<open>
  Claim C5 (invalid move rejection). On an engine that is not frozen, a block holding a
  node one of whose users is a node outside the block other than the output node of the
  steady graph makes \<open>move_to_next_iter_before\<close> raise \<open>ValueError\<close> and leaves the
  whole state, the three graphs included, as it was.
\<close>

theorem invalid_move_rejected:
  assumes "\<not> freeze_flag st"
    and "node \<in> set subgraph"
    and "UserNode user \<in> set (n_users (g_nodes (main_graph st) ! node))"
    and "user \<notin> set subgraph"
    and "find_output (main_graph st) \<noteq> Some user"
  shows "move_to_next_iter_before subgraph target_node st = (Inl ValueError, st)"
proof -
  have "\<not> is_connect_to_output (g_nodes (main_graph st)) subgraph (find_output (main_graph st))"
    unfolding is_connect_to_output_def list_all_iff
  proof
    assume a: "\<forall>node\<in>set subgraph. \<forall>u\<in>set (n_users (g_nodes (main_graph st) ! node)).
        case u of UserNode user \<Rightarrow> \<not> (user \<notin> set subgraph \<and> Some user \<noteq> find_output (main_graph st))
        | UserMark s \<Rightarrow> True"
    from a assms(2,3) have "\<not> (user \<notin> set subgraph \<and> Some user \<noteq> find_output (main_graph st))"
      by fastforce
    with assms(4,5) show False by auto
  qed
  with assms(1) show ?thesis by (simp add: move_to_next_iter_before_def)
qed

theorem invalid_move_rejected_witness:
  "\<not> freeze_flag ex_engine \<and> (0::nat) \<in> set [0]
   \<and> UserNode 1 \<in> set (n_users (g_nodes (main_graph ex_engine) ! 0))
   \<and> (1::nat) \<notin> set [0]
   \<and> find_output (main_graph ex_engine) \<noteq> Some 1
   \<and> move_to_next_iter_before [0] 2 ex_engine = (Inl ValueError, ex_engine)"
proof -
  have h1: "\<not> freeze_flag ex_engine" by code_simp
  have h2: "(0::nat) \<in> set [0]" by simp
  have h3: "UserNode 1 \<in> set (n_users (g_nodes (main_graph ex_engine) ! 0))" by code_simp
  have h4: "(1::nat) \<notin> set [0]" by simp
  have h5: "find_output (main_graph ex_engine) \<noteq> Some 1" by code_simp
  from invalid_move_rejected[OF h1 h2 h3 h4 h5, of 2] h1 h2 h3 h4 h5 show ?thesis by blast
qed

text \<open>
  Claim C6 (k-consistency of the relocation). Whenever \<open>move_to_next_iter_before\<close>
  returns, the export on the looked-up block in the setup graph and the export on the
  block in the steady graph (each on the graph as the call found it) returned the same
  count \<open>k\<close>, and \<open>num_extra_output\<close> has grown by exactly \<open>k\<close>.
\<close>

theorem move_export_counts_agree:
  assumes "move_to_next_iter_before subgraph target_node st = (Inr (), st')"
  shows "\<exists>k setup_subgraph gs gm.
      those (map (\<lambda>node. lookup_node st node Setup) subgraph) = Some setup_subgraph
    \<and> forward_subgraph_inputs setup_subgraph (setup_graph st) True = (Inr k, gs)
    \<and> forward_subgraph_inputs subgraph (main_graph st) False = (Inr k, gm)
    \<and> num_extra_output st' = num_extra_output st + k"
proof -
  let ?st1 = "st\<lparr>cross_iter_block_count := cross_iter_block_count st + 1\<rparr>"
  from assms have nf: "\<not> freeze_flag st"
    and co: "is_connect_to_output (g_nodes (main_graph st)) subgraph (find_output (main_graph st))"
    by (auto simp: move_to_next_iter_before_def split: if_splits)
  obtain r2 st2 where s: "move_setup_part subgraph ?st1 = (r2, st2)"
    by (cases "move_setup_part subgraph ?st1") auto
  from assms nf co s obtain k where r2: "r2 = Inr k"
    by (cases r2) (auto simp: move_to_next_iter_before_def Let_def)
  obtain r3 st3 where c: "move_cleanup_part subgraph target_node k st2 = (r3, st3)"
    by (cases "move_cleanup_part subgraph target_node k st2") auto
  from assms nf co s r2 c have r3: "r3 = Inr ()"
    by (cases r3) (auto simp: move_to_next_iter_before_def Let_def)
  obtain r4 st4 where m: "move_main_part subgraph target_node k st3 = (r4, st4)"
    by (cases "move_main_part subgraph target_node k st3") auto
  from assms nf co s r2 c r3 m obtain k' where r4: "r4 = Inr k'"
    by (cases r4) (auto simp: move_to_next_iter_before_def Let_def)
  from assms nf co s r2 c r3 m r4
  have st': "num_extra_output st' = num_extra_output st4 + k'"
    by (auto simp: move_to_next_iter_before_def Let_def)
  have lk: "(\<lambda>node. lookup_node ?st1 node Setup) = (\<lambda>node. lookup_node st node Setup)"
    by (simp add: lookup_node_def)
  from move_setup_part_returns[of subgraph ?st1 k st2] s r2 lk
  obtain ss gs where ss: "those (map (\<lambda>node. lookup_node st node Setup) subgraph) = Some ss"
    and fs: "forward_subgraph_inputs ss (setup_graph st) True = (Inr k, gs)"
    by auto
  have mg2: "main_graph st2 = main_graph st" "num_extra_output st2 = num_extra_output st"
    using move_setup_part_frame(1,2)[OF s] by simp_all
  have mg3: "main_graph st3 = main_graph st" "num_extra_output st3 = num_extra_output st"
    using move_cleanup_part_frame(1,2)[OF c] mg2 by simp_all
  from move_main_part_returns[of subgraph target_node k st3 k' st4] m r4 mg3
  obtain gm where kk: "k' = k"
    and fm: "forward_subgraph_inputs subgraph (main_graph st) False = (Inr k, gm)"
    and ne: "num_extra_output st4 = num_extra_output st"
    by auto
  from ss fs fm st' kk ne show ?thesis by auto
qed

theorem move_export_counts_agree_witness:
  "fst (move_to_next_iter_before [1] 2 ex_engine) = Inr ()
   \<and> (\<exists>k setup_subgraph gs gm.
      those (map (\<lambda>node. lookup_node ex_engine node Setup) [1]) = Some setup_subgraph
    \<and> forward_subgraph_inputs setup_subgraph (setup_graph ex_engine) True = (Inr k, gs)
    \<and> forward_subgraph_inputs [1] (main_graph ex_engine) False = (Inr k, gm)
    \<and> num_extra_output (snd (move_to_next_iter_before [1] 2 ex_engine)) = num_extra_output ex_engine + k)
   \<and> num_extra_output (snd (move_to_next_iter_before [1] 2 ex_engine)) = 1"
proof -
  have h: "fst (move_to_next_iter_before [1] 2 ex_engine) = Inr ()" by code_simp
  then have eq: "move_to_next_iter_before [1] 2 ex_engine = (Inr (), snd (move_to_next_iter_before [1] 2 ex_engine))"
    by (metis prod.collapse)
  have n: "num_extra_output (snd (move_to_next_iter_before [1] 2 ex_engine)) = 1" by code_simp
  from move_export_counts_agree[OF eq] h n show ?thesis by blast
qed

text \<open>
  Claim C7 (erase prunes the correspondence map), as stated, fails: \<open>erase_node\<close> never
  touches the two mappings. On the example engine, after node 1 is erased from the three
  graphs, both mappings still send it to node 1 of the setup and of the cleanup graph,
  which are erased.
\<close>

theorem erase_keeps_entry_counterexample:
  "fst (erase_node 1 ex_engine) = Inr ()
   \<and> setup_mapping (snd (erase_node 1 ex_engine)) 1 = Some 1
   \<and> cleanup_mapping (snd (erase_node 1 ex_engine)) 1 = Some 1
   \<and> 1 \<notin> set (g_order (main_graph (snd (erase_node 1 ex_engine))))
   \<and> 1 \<notin> set (g_order (setup_graph (snd (erase_node 1 ex_engine))))
   \<and> 1 \<notin> set (g_order (cleanup_graph (snd (erase_node 1 ex_engine))))
   \<and> n_erased (g_nodes (setup_graph (snd (erase_node 1 ex_engine))) ! 1)
   \<and> n_erased (g_nodes (cleanup_graph (snd (erase_node 1 ex_engine))) ! 1)"
  by code_simp

text \<open>
  Claim C7, amended. \<open>erase_node\<close> leaves the correspondence map as it was, whatever its
  outcome; when it returns without the freeze, the entry of the erased node is still
  there and relates the erased node of the steady graph to its counterparts, which are
  erased too.
\<close>

theorem erase_keeps_correspondence_entry:
  "setup_mapping (snd (erase_node n st)) = setup_mapping st
   \<and> cleanup_mapping (snd (erase_node n st)) = cleanup_mapping st
   \<and> (\<not> freeze_flag st \<and> fst (erase_node n st) = Inr () \<longrightarrow>
        (\<exists>s c. setup_mapping (snd (erase_node n st)) n = Some s
             \<and> cleanup_mapping (snd (erase_node n st)) n = Some c
             \<and> n_erased (g_nodes (setup_graph (snd (erase_node n st))) ! s)
             \<and> n_erased (g_nodes (main_graph (snd (erase_node n st))) ! n)
             \<and> n_erased (g_nodes (cleanup_graph (snd (erase_node n st))) ! c)))"
proof (intro conjI impI)
  show "setup_mapping (snd (erase_node n st)) = setup_mapping st" by (rule erase_node_mappings)
  show "cleanup_mapping (snd (erase_node n st)) = cleanup_mapping st" by (rule erase_node_mappings)
next
  assume a: "\<not> freeze_flag st \<and> fst (erase_node n st) = Inr ()"
  from erase_node_returns[of st n] a obtain s c gs gm gc where
      s: "setup_mapping st n = Some s" and c: "cleanup_mapping st n = Some c"
    and es: "fx_erase_node s (setup_graph st) = (Inr (), gs)"
    and em: "fx_erase_node n (main_graph st) = (Inr (), gm)"
    and ec: "fx_erase_node c (cleanup_graph st) = (Inr (), gc)"
    and st': "snd (erase_node n st) =
        st\<lparr>setup_graph := gs, main_graph := gm, cleanup_graph := gc,
           edit_log := edit_log st @ [Setup, Main, Cleanup]\<rparr>"
    by blast
  have 1: "n_erased (g_nodes gs ! s)" using fx_erase_node_static(4)[OF es] by simp
  have 2: "n_erased (g_nodes gm ! n)" using fx_erase_node_static(4)[OF em] by simp
  have 3: "n_erased (g_nodes gc ! c)" using fx_erase_node_static(4)[OF ec] by simp
  show "\<exists>s c. setup_mapping (snd (erase_node n st)) n = Some s
             \<and> cleanup_mapping (snd (erase_node n st)) n = Some c
             \<and> n_erased (g_nodes (setup_graph (snd (erase_node n st))) ! s)
             \<and> n_erased (g_nodes (main_graph (snd (erase_node n st))) ! n)
             \<and> n_erased (g_nodes (cleanup_graph (snd (erase_node n st))) ! c)"
    using s c 1 2 3 by (simp add: st')
qed

theorem erase_keeps_correspondence_entry_witness:
  "\<not> freeze_flag ex_engine \<and> fst (erase_node 1 ex_engine) = Inr ()
   \<and> setup_mapping (snd (erase_node 1 ex_engine)) = setup_mapping ex_engine
   \<and> (\<exists>s c. setup_mapping (snd (erase_node 1 ex_engine)) 1 = Some s
             \<and> cleanup_mapping (snd (erase_node 1 ex_engine)) 1 = Some c
             \<and> n_erased (g_nodes (setup_graph (snd (erase_node 1 ex_engine))) ! s)
             \<and> n_erased (g_nodes (main_graph (snd (erase_node 1 ex_engine))) ! 1)
             \<and> n_erased (g_nodes (cleanup_graph (snd (erase_node 1 ex_engine))) ! c))"
proof -
  have h1: "\<not> freeze_flag ex_engine" by code_simp
  have h2: "fst (erase_node 1 ex_engine) = Inr ()" by code_simp
  from erase_keeps_correspondence_entry[of 1 ex_engine] h1 h2 show ?thesis by blast
qed

text \<open>
  Claim C8 (dispatcher routing). After \<open>setup\<close> with a bound \<open>N > 1\<close>, the i-th call
  of \<open>forward\<close> (counted from 1), whatever the earlier calls returned or raised, calls
  the executor on the setup graph when \<open>i = 1\<close>, on the cleanup graph when \<open>i = N\<close> and on
  the steady graph otherwise, and what the call returns or raises is what this run of
  that graph gives: directly when there are no boundary values, and on the arguments
  extended with the retained tuple otherwise. Five calls with \<open>N = 5\<close> run setup,
  steady, steady, steady, cleanup, and two calls with \<open>N = 2\<close> run setup, cleanup;
  without boundary values each result is the executor's result on that graph.
\<close>

theorem dispatcher_routing:
  assumes "1 < N" and "module_setup N m0 = Inr m"
  shows "(\<forall>i. 1 \<le> i \<and> i \<le> length cs \<longrightarrow>
           (let mi = snd (forward_calls exec has_len (take (i - 1) cs) m);
                args = fst (cs ! (i - 1)); kwargs = snd (cs ! (i - 1));
                g = (if i = 1 then Setup else if int i = N then Cleanup else Main);
                m1 = mi\<lparr>m_iter := int i\<rparr>; k = m_num_extra_output m
            in fst (forward_calls exec has_len cs m) ! (i - 1) = fst (forward exec has_len args kwargs mi)
             \<and> forward exec has_len args kwargs mi =
                 (if k = 0 then
                    (case exec g args kwargs of
                       Inl e \<Rightarrow> ((g, Inl e), m1)
                     | Inr out \<Rightarrow> ((g, log_output has_len out), m1))
                  else if kwargs \<noteq> [] then ((g, Inl AssertionError), m1)
                  else
                    (case exec g (args @ m_previous_output mi) [] of
                       Inl e \<Rightarrow> ((g, Inl e), m1)
                     | Inr raw \<Rightarrow>
                         (if int i < N then
                            (case raw of
                               VOther v \<Rightarrow> ((g, Inl AssertionError), m1)
                             | VTuple out \<Rightarrow>
                                 if k < length out then
                                   ((g, log_output has_len
                                          (if length out - k = 1 then out ! 0
                                           else VTuple (take (length out - k) out))),
                                    m1\<lparr>m_previous_output := drop (length out - k) out\<rparr>)
                                 else ((g, Inl AssertionError), m1))
                          else ((g, log_output has_len raw), m1))))))
       \<and> (N = 5 \<and> length cs = 5 \<longrightarrow>
            map fst (fst (forward_calls exec has_len cs m)) = [Setup, Main, Main, Main, Cleanup])
       \<and> (N = 5 \<and> length cs = 5 \<and> m_num_extra_output m = 0 \<longrightarrow>
            fst (forward_calls exec has_len cs m) =
              map (\<lambda>p. (fst p, case exec (fst p) (fst (snd p)) (snd (snd p)) of
                                  Inl e \<Rightarrow> Inl e
                                | Inr out \<Rightarrow> log_output has_len out))
                (zip [Setup, Main, Main, Main, Cleanup] cs))
       \<and> (N = 2 \<and> length cs = 2 \<longrightarrow>
            map fst (fst (forward_calls exec has_len cs m)) = [Setup, Cleanup])
       \<and> (N = 2 \<and> length cs = 2 \<and> m_num_extra_output m = 0 \<longrightarrow>
            fst (forward_calls exec has_len cs m) =
              map (\<lambda>p. (fst p, case exec (fst p) (fst (snd p)) (snd (snd p)) of
                                  Inl e \<Rightarrow> Inl e
                                | Inr out \<Rightarrow> log_output has_len out))
                (zip [Setup, Cleanup] cs))"
    (is "?A \<and> ?B \<and> ?Bz \<and> ?C \<and> ?Cz")
proof -
  from assms have it: "m_iter m = 0" and mx: "m_max_iters m = N"
    by (auto simp: module_setup_def split: if_splits)
  have A: ?A
  proof (intro allI impI)
    fix i assume i: "1 \<le> i \<and> i \<le> length cs"
    then have j: "i - 1 < length cs" by auto
    have n: "fst (forward_calls exec has_len cs m) ! (i - 1) =
        fst (forward exec has_len (fst (cs ! (i - 1))) (snd (cs ! (i - 1)))
               (snd (forward_calls exec has_len (take (i - 1) cs) m)))"
      using j by (rule forward_calls_nth)
    from i have i1: "1 \<le> i" and i2: "i \<le> length cs" by simp_all
    note c = nth_call[OF it mx i1 i2, of exec has_len, unfolded Let_def]
    show "let mi = snd (forward_calls exec has_len (take (i - 1) cs) m);
                args = fst (cs ! (i - 1)); kwargs = snd (cs ! (i - 1));
                g = (if i = 1 then Setup else if int i = N then Cleanup else Main);
                m1 = mi\<lparr>m_iter := int i\<rparr>; k = m_num_extra_output m
            in fst (forward_calls exec has_len cs m) ! (i - 1) = fst (forward exec has_len args kwargs mi)
             \<and> forward exec has_len args kwargs mi =
                 (if k = 0 then
                    (case exec g args kwargs of
                       Inl e \<Rightarrow> ((g, Inl e), m1)
                     | Inr out \<Rightarrow> ((g, log_output has_len out), m1))
                  else if kwargs \<noteq> [] then ((g, Inl AssertionError), m1)
                  else
                    (case exec g (args @ m_previous_output mi) [] of
                       Inl e \<Rightarrow> ((g, Inl e), m1)
                     | Inr raw \<Rightarrow>
                         (if int i < N then
                            (case raw of
                               VOther v \<Rightarrow> ((g, Inl AssertionError), m1)
                             | VTuple out \<Rightarrow>
                                 if k < length out then
                                   ((g, log_output has_len
                                          (if length out - k = 1 then out ! 0
                                           else VTuple (take (length out - k) out))),
                                    m1\<lparr>m_previous_output := drop (length out - k) out\<rparr>)
                                 else ((g, Inl AssertionError), m1))
                          else ((g, log_output has_len raw), m1))))"
      unfolding Let_def
    proof (rule conjI)
      show "fst (forward_calls exec has_len cs m) ! (i - 1) =
        fst (forward exec has_len (fst (cs ! (i - 1))) (snd (cs ! (i - 1)))
               (snd (forward_calls exec has_len (take (i - 1) cs) m)))"
        by (rule n)
    qed (rule c)
  qed
  have tags: "map fst (fst (forward_calls exec has_len cs m)) = gs"
    if "length gs = length cs"
      "\<And>j. j < length cs \<Longrightarrow> gs ! j = (if j = 0 then Setup else if int j + 1 = N then Cleanup else Main)"
    for gs
  proof (rule nth_equalityI)
    show "length (map fst (fst (forward_calls exec has_len cs m))) = length gs" using that(1) by simp
  next
    fix j assume "j < length (map fst (fst (forward_calls exec has_len cs m)))"
    then have j: "j < length cs" by simp
    then show "map fst (fst (forward_calls exec has_len cs m)) ! j = gs ! j"
      using call_tag[OF it mx j, of exec has_len] that(2)[OF j] by simp
  qed
  have five: "[Setup, Main, Main, Main, Cleanup] ! j =
      (if j = 0 then Setup else if Suc j = 5 then Cleanup else Main)" if "j < 5" for j
  proof -
    from that have "j = 0 \<or> j = 1 \<or> j = 2 \<or> j = 3 \<or> j = 4" by arith
    then show ?thesis by auto
  qed
  have two: "[Setup, Cleanup] ! j = (if j = 0 then Setup else if Suc j = 2 then Cleanup else Main)"
    if "j < 2" for j
  proof -
    from that have "j = 0 \<or> j = 1" by arith
    then show ?thesis by auto
  qed
  have B: ?B
  proof (intro impI)
    assume a: "N = 5 \<and> length cs = 5"
    show "map fst (fst (forward_calls exec has_len cs m)) = [Setup, Main, Main, Main, Cleanup]"
    proof (rule tags)
      show "length [Setup, Main, Main, Main, Cleanup] = length cs" using a by simp
    next
      fix j assume "j < length cs"
      then have "j < 5" using a by simp
      from five[OF this] a
      show "[Setup, Main, Main, Main, Cleanup] ! j =
            (if j = 0 then Setup else if int j + 1 = N then Cleanup else Main)"
        by (simp only: ) auto
    qed
  qed
  have Bz: ?Bz
  proof (intro impI)
    assume a: "N = 5 \<and> length cs = 5 \<and> m_num_extra_output m = 0"
    show "fst (forward_calls exec has_len cs m) =
              map (\<lambda>p. (fst p, case exec (fst p) (fst (snd p)) (snd (snd p)) of
                                  Inl e \<Rightarrow> Inl e
                                | Inr out \<Rightarrow> log_output has_len out))
                (zip [Setup, Main, Main, Main, Cleanup] cs)"
    proof (rule plain_calls)
      show "m_iter m = 0" by (rule it)
      show "m_max_iters m = int (length cs)" using mx a by simp
      show "m_num_extra_output m = 0" using a by simp
      show "length [Setup, Main, Main, Main, Cleanup] = length cs" using a by simp
    next
      fix j assume "j < length cs"
      then have "j < 5" using a by simp
      from five[OF this] a
      show "[Setup, Main, Main, Main, Cleanup] ! j =
            (if j = 0 then Setup else if Suc j = length cs then Cleanup else Main)"
        by simp
    qed
  qed
  have C: ?C
  proof (intro impI)
    assume a: "N = 2 \<and> length cs = 2"
    show "map fst (fst (forward_calls exec has_len cs m)) = [Setup, Cleanup]"
    proof (rule tags)
      show "length [Setup, Cleanup] = length cs" using a by simp
    next
      fix j assume "j < length cs"
      then have "j < 2" using a by simp
      from two[OF this] a
      show "[Setup, Cleanup] ! j =
            (if j = 0 then Setup else if int j + 1 = N then Cleanup else Main)"
        by (simp only: ) auto
    qed
  qed
  have Cz: ?Cz
  proof (intro impI)
    assume a: "N = 2 \<and> length cs = 2 \<and> m_num_extra_output m = 0"
    show "fst (forward_calls exec has_len cs m) =
              map (\<lambda>p. (fst p, case exec (fst p) (fst (snd p)) (snd (snd p)) of
                                  Inl e \<Rightarrow> Inl e
                                | Inr out \<Rightarrow> log_output has_len out))
                (zip [Setup, Cleanup] cs)"
    proof (rule plain_calls)
      show "m_iter m = 0" by (rule it)
      show "m_max_iters m = int (length cs)" using mx a by simp
      show "m_num_extra_output m = 0" using a by simp
      show "length [Setup, Cleanup] = length cs" using a by simp
    next
      fix j assume "j < length cs"
      then have "j < 2" using a by simp
      from two[OF this] a
      show "[Setup, Cleanup] ! j =
            (if j = 0 then Setup else if Suc j = length cs then Cleanup else Main)"
        by simp
    qed
  qed
  show ?thesis
    by (rule conjI[OF A conjI[OF B conjI[OF Bz conjI[OF C Cz]]]])
qed

theorem dispatcher_routing_witness:
  "(1::int) < 5
   \<and> module_setup 5 (module_init 0 :: nat iter_graph_module) =
       Inr \<lparr>m_iter = 0, m_max_iters = 5, m_previous_output = [], m_num_extra_output = 0\<rparr>
   \<and> fst (forward_calls ex_exec ex_has_len [([], []), ([], []), ([], []), ([], []), ([], [])]
        \<lparr>m_iter = 0, m_max_iters = 5, m_previous_output = [], m_num_extra_output = 0\<rparr>)
      = [(Setup, Inr (VTuple [VOther 0, VOther 7])),
         (Main, Inr (VTuple [VOther 0, VOther 8])),
         (Main, Inr (VTuple [VOther 0, VOther 8])),
         (Main, Inr (VTuple [VOther 0, VOther 8])),
         (Cleanup, Inr (VTuple [VOther 0, VOther 9]))]"
proof -
  have h1: "(1::int) < 5" by simp
  have h2: "module_setup 5 (module_init 0 :: nat iter_graph_module) =
       Inr \<lparr>m_iter = 0, m_max_iters = 5, m_previous_output = [], m_num_extra_output = 0\<rparr>"
    by (simp add: module_setup_def module_init_def)
  note r = dispatcher_routing[OF h1 h2, where cs = "[([], []), ([], []), ([], []), ([], []), ([], [])]"
      and exec = ex_exec and has_len = ex_has_len, THEN conjunct2, THEN conjunct2, THEN conjunct1]
  have "fst (forward_calls ex_exec ex_has_len [([], []), ([], []), ([], []), ([], []), ([], [])]
        \<lparr>m_iter = 0, m_max_iters = 5, m_previous_output = [], m_num_extra_output = 0\<rparr>)
      = [(Setup, Inr (VTuple [VOther 0, VOther 7])),
         (Main, Inr (VTuple [VOther 0, VOther 8])),
         (Main, Inr (VTuple [VOther 0, VOther 8])),
         (Main, Inr (VTuple [VOther 0, VOther 8])),
         (Cleanup, Inr (VTuple [VOther 0, VOther 9]))]"
    using r by (simp add: ex_exec_def log_output_def ex_has_len_def)
  with h1 h2 show ?thesis by blast
qed




text \<open>
  Claim C10 (setup before cleanup at \<open>N = 1\<close>). After \<open>setup\<close> with a bound of exactly
  1, the first call of \<open>forward\<close> calls the executor on the setup graph and on no other:
  the test \<open>i = 1\<close> comes before the test \<open>i = N\<close>. The counter becomes 1, and the call
  returns or raises what the run of the setup graph gives.
\<close>

theorem setup_precedence_at_one:
  assumes "module_setup 1 m0 = Inr m"
  shows "forward exec has_len args kwargs m =
     (let m1 = m\<lparr>m_iter := 1\<rparr> in
      if m_num_extra_output m = 0 then
        (case exec Setup args kwargs of
           Inl e \<Rightarrow> ((Setup, Inl e), m1)
         | Inr out \<Rightarrow> ((Setup, log_output has_len out), m1))
      else if kwargs \<noteq> [] then ((Setup, Inl AssertionError), m1)
      else
        (case exec Setup (args @ m_previous_output m) [] of
           Inl e \<Rightarrow> ((Setup, Inl e), m1)
         | Inr raw \<Rightarrow> ((Setup, log_output has_len raw), m1)))"
proof -
  from assms have it: "m_iter m = 0" and mx: "m_max_iters m = 1"
    by (auto simp: module_setup_def split: if_splits)
  have up: "m\<lparr>m_iter := m_iter m + 1\<rparr> = m\<lparr>m_iter := 1\<rparr>" using it by simp
  have sel: "select_gm (m\<lparr>m_iter := 1\<rparr>) = Setup" by (simp add: select_gm_def)
  have cmp: "\<not> m_iter (m\<lparr>m_iter := 1\<rparr>) < m_max_iters (m\<lparr>m_iter := 1\<rparr>)" using mx by simp
  show ?thesis
    unfolding forward_explicit[of exec has_len args kwargs m] Let_def up sel
    using cmp by (simp split: sum.splits)
qed

theorem setup_precedence_at_one_witness:
  "module_setup 1 (module_init 0 :: nat iter_graph_module) =
     Inr \<lparr>m_iter = 0, m_max_iters = 1, m_previous_output = [], m_num_extra_output = 0\<rparr>
   \<and> forward ex_exec ex_has_len [] []
        \<lparr>m_iter = 0, m_max_iters = 1, m_previous_output = [], m_num_extra_output = 0\<rparr> =
      ((Setup, Inr (VTuple [VOther 0, VOther 7])),
       \<lparr>m_iter = 1, m_max_iters = 1, m_previous_output = [], m_num_extra_output = 0\<rparr>)"
proof -
  have h: "module_setup 1 (module_init 0 :: nat iter_graph_module) =
     Inr \<lparr>m_iter = 0, m_max_iters = 1, m_previous_output = [], m_num_extra_output = 0\<rparr>"
    by (simp add: module_setup_def module_init_def)
  show ?thesis
    using h setup_precedence_at_one[OF h, where exec = ex_exec and has_len = ex_has_len
        and args = "[]" and kwargs = "[]"]
    by (simp add: ex_exec_def log_output_def ex_has_len_def)
qed

end
